theory Spec2Isabelle
  imports Main "HOL-Library.Sublist"
begin

section \<open>Strings of the retriever\<close>

text \<open>
  A Python \<open>str\<close> is a sequence of Unicode code points; \<open>len\<close>, slicing, \<open>in\<close> and
  the \<open>re\<close> module all work on code points. A string is therefore a list of code
  points, each a natural number. Literals of the source are written by their code points.
\<close>

type_synonym ustr = "nat list"

datatype error = ValueError | ValidationError

text \<open>
  The characters that \<open>str.strip\<close>, \<open>str.isspace\<close> and the pattern \<open>\s\<close> treat as
  white space, and the line boundaries of \<open>str.splitlines\<close>.
\<close>

definition isspace :: "nat \<Rightarrow> bool" where
  "isspace c \<longleftrightarrow>
     (9 \<le> c \<and> c \<le> 13) \<or> (28 \<le> c \<and> c \<le> 32) \<or> c = 133 \<or> c = 160 \<or> c = 5760 \<or>
     (8192 \<le> c \<and> c \<le> 8202) \<or> c = 8232 \<or> c = 8233 \<or> c = 8239 \<or> c = 8287 \<or> c = 12288"

definition is_linebreak :: "nat \<Rightarrow> bool" where
  "is_linebreak c \<longleftrightarrow>
     (10 \<le> c \<and> c \<le> 13) \<or> (28 \<le> c \<and> c \<le> 30) \<or> c = 133 \<or> c = 8232 \<or> c = 8233"

definition lstrip :: "ustr \<Rightarrow> ustr" where
  "lstrip s = dropWhile isspace s"

definition rstrip :: "ustr \<Rightarrow> ustr" where
  "rstrip s = rev (dropWhile isspace (rev s))"

definition strip :: "ustr \<Rightarrow> ustr" where
  "strip s = rstrip (lstrip s)"

text \<open>\<open>s[:n]\<close> for a Python integer \<open>n\<close>: a negative bound counts from the end.\<close>

definition py_prefix :: "int \<Rightarrow> 'a list \<Rightarrow> 'a list" where
  "py_prefix n xs = (if 0 \<le> n then take (nat n) xs else take (nat (int (length xs) + n)) xs)"

text \<open>\<open>s[lo:hi]\<close> for bounds that are not negative.\<close>

definition py_slice :: "nat \<Rightarrow> nat \<Rightarrow> 'a list \<Rightarrow> 'a list" where
  "py_slice lo hi xs = take (hi - lo) (drop lo xs)"

text \<open>\<open>s.index(sub)\<close>: the first position of \<open>sub\<close> in \<open>s\<close>, or \<open>ValueError\<close>.\<close>

fun str_index :: "ustr \<Rightarrow> ustr \<Rightarrow> error + nat" where
  "str_index [] sub = (if sub = [] then Inr 0 else Inl ValueError)"
| "str_index (c # cs) sub =
     (if prefix sub (c # cs) then Inr 0
      else (case str_index cs sub of Inl e \<Rightarrow> Inl e | Inr i \<Rightarrow> Inr (Suc i)))"

text \<open>
  \<open>str.splitlines\<close>: the text is cut at every line boundary, a carriage return followed by
  a line feed counts as one boundary, and a final boundary opens no further line.
\<close>

fun splitlines_from :: "ustr \<Rightarrow> ustr \<Rightarrow> ustr list" where
  "splitlines_from acc [] = (if acc = [] then [] else [rev acc])"
| "splitlines_from acc [c] =
     (if is_linebreak c then [rev acc] else [rev (c # acc)])"
| "splitlines_from acc (c # d # cs) =
     (if c = 13 \<and> d = 10 then rev acc # splitlines_from [] cs
      else if is_linebreak c then rev acc # splitlines_from [] (d # cs)
      else splitlines_from (c # acc) (d # cs))"

definition splitlines :: "ustr \<Rightarrow> ustr list" where
  "splitlines s = splitlines_from [] s"

text \<open>
  \<open>pattern.split(s)\<close> for a pattern whose matches are never empty. The matcher \<open>m\<close> gets
  the character before the position (for a look-behind) and the rest of the text, and
  returns the length of the match that starts there, 0 when there is none. The text is
  scanned from the left; \<open>acc\<close> holds the piece read so far, in reverse.
\<close>

function re_split :: "(nat option \<Rightarrow> ustr \<Rightarrow> nat) \<Rightarrow> nat option \<Rightarrow> ustr \<Rightarrow> ustr \<Rightarrow> ustr list" where
  "re_split m prev acc [] = [rev acc]"
| "re_split m prev acc (c # cs) =
     (let n = m prev (c # cs) in
      if n = 0 then re_split m (Some c) (c # acc) cs
      else rev acc # re_split m (Some (last (take n (c # cs)))) [] (drop n (c # cs)))"
  by pat_completeness auto
termination
  by (relation "measure (\<lambda>(m, prev, acc, xs). length xs)") auto

section \<open>Basic Hebrew text processing\<close>

text \<open>\<open>_NIQQUD_RE\<close>: the class of the code points 0x0591 to 0x05C7.\<close>

definition is_niqqud :: "nat \<Rightarrow> bool" where
  "is_niqqud c \<longleftrightarrow> 1425 \<le> c \<and> c \<le> 1479"

text \<open>The class \<open>[ \t]\<close> and the substitution of every run of it by one space.\<close>

definition is_blank :: "nat \<Rightarrow> bool" where
  "is_blank c \<longleftrightarrow> c = 32 \<or> c = 9"

function collapse_blanks :: "ustr \<Rightarrow> ustr" where
  "collapse_blanks [] = []"
| "collapse_blanks (c # cs) =
     (if is_blank c then 32 # collapse_blanks (dropWhile is_blank cs)
      else c # collapse_blanks cs)"
  by pat_completeness auto
termination
  by (relation "measure length") (auto simp: less_Suc_eq_le length_dropWhile_le)

definition normalize_hebrew :: "ustr \<Rightarrow> ustr" where
  "normalize_hebrew text_in =
     (let t1 = filter (\<lambda>c. \<not> is_niqqud c) text_in;
          t2 = collapse_blanks t1
      in strip t2)"

text \<open>
  \<open>_PARAGRAPH_SEP_RE\<close> is \<open>\n{2,}|(?:\r?\n)+\<close>. The first alternative is tried first and
  takes the whole run of line feeds when there are at least two; otherwise the second
  takes the longest run of line breaks, each a line feed with an optional carriage
  return before it.
\<close>

fun crlf_run :: "ustr \<Rightarrow> nat" where
  "crlf_run [] = 0"
| "crlf_run [c] = (if c = 10 then 1 else 0)"
| "crlf_run (c # d # cs) =
     (if c = 10 then 1 + crlf_run (d # cs)
      else if c = 13 \<and> d = 10 then 2 + crlf_run cs
      else 0)"

definition PARAGRAPH_SEP_RE :: "nat option \<Rightarrow> ustr \<Rightarrow> nat" where
  "PARAGRAPH_SEP_RE prev xs =
     (let n = length (takeWhile (\<lambda>c. c = 10) xs) in if 2 \<le> n then n else crlf_run xs)"

text \<open>
  \<open>_SENTENCE_SEP_RE\<close> is \<open>(?<=[\.!?])\s+|\n+\<close>: after a full stop, an exclamation mark
  or a question mark the longest run of white space, otherwise the run of line feeds.
\<close>

definition SENTENCE_SEP_RE :: "nat option \<Rightarrow> ustr \<Rightarrow> nat" where
  "SENTENCE_SEP_RE prev xs =
     (if (prev = Some 46 \<or> prev = Some 33 \<or> prev = Some 63) \<and> takeWhile isspace xs \<noteq> []
      then length (takeWhile isspace xs)
      else length (takeWhile (\<lambda>c. c = 10) xs))"

definition split_to_paragraphs :: "ustr \<Rightarrow> ustr list" where
  "split_to_paragraphs text_in =
     (let parts = map strip (filter (\<lambda>p. strip p \<noteq> []) (re_split PARAGRAPH_SEP_RE None [] text_in))
      in if length parts \<le> 1
         then map strip (filter (\<lambda>p. strip p \<noteq> []) (splitlines text_in))
         else parts)"

definition split_to_sentences :: "ustr \<Rightarrow> ustr list" where
  "split_to_sentences text_in =
     (let candidates =
            map strip (filter (\<lambda>s. s \<noteq> [] \<and> strip s \<noteq> []) (re_split SENTENCE_SEP_RE None [] text_in))
      in if candidates \<noteq> [] then candidates else [strip text_in])"

section \<open>Section references\<close>

text \<open>
  \<open>_SECTION_REF_RE\<close> uses the classes \<open>\d\<close> and \<open>\w\<close>, which are tables of the Unicode
  database of the Python runtime, not of this program. They are parameters of the model.
\<close>

record unicode_tables =
  uni_digit :: "nat \<Rightarrow> bool"
  uni_word :: "nat \<Rightarrow> bool"

text \<open>The class \<open>[\w\(\)...\"...\-]\<close> that ends the pattern (gershayim 1524, geresh 1523).\<close>

definition ref_tail_class :: "unicode_tables \<Rightarrow> nat \<Rightarrow> bool" where
  "ref_tail_class U c \<longleftrightarrow>
     uni_word U c \<or> c = 40 \<or> c = 41 \<or> c = 1524 \<or> c = 34 \<or> c = 1523 \<or> c = 45"

text \<open>
  Backtracking of the greedy \<open>\s+\<close>: the largest number \<open>k \<ge> 1\<close> of white-space
  characters, at most the run's length, after which a digit follows.
\<close>

fun ws_backtrack :: "(nat \<Rightarrow> bool) \<Rightarrow> ustr \<Rightarrow> nat \<Rightarrow> nat option" where
  "ws_backtrack d xs 0 = None"
| "ws_backtrack d xs (Suc k) =
     (if Suc k < length xs \<and> d (xs ! Suc k) then Some (Suc k) else ws_backtrack d xs k)"

text \<open>
  The length of the match of \<open>_SECTION_REF_RE\<close> that starts at the head of the text: the
  literal word (code points 1505, 1506, 1497, 1507), white space, digits, and the
  longest run of the tail class.
\<close>

definition SECTION_REF_RE :: "unicode_tables \<Rightarrow> ustr \<Rightarrow> nat option" where
  "SECTION_REF_RE U xs =
     (if \<not> prefix [1505, 1506, 1497, 1507] xs then None
      else
        let r = drop 4 xs in
        (case ws_backtrack (uni_digit U) r (length (takeWhile isspace r)) of
           None \<Rightarrow> None
         | Some k \<Rightarrow>
             let nd = length (takeWhile (uni_digit U) (drop k r));
                 nt = length (takeWhile (ref_tail_class U) (drop (k + nd) r))
             in Some (4 + k + nd + nt)))"

text \<open>\<open>extract_section_ref\<close>: \<open>search\<close> tries every position from the left.\<close>

fun extract_section_ref :: "unicode_tables \<Rightarrow> ustr \<Rightarrow> ustr option" where
  "extract_section_ref U [] = None"
| "extract_section_ref U (c # cs) =
     (case SECTION_REF_RE U (c # cs) of
        Some n \<Rightarrow> Some (take n (c # cs))
      | None \<Rightarrow> extract_section_ref U cs)"

section \<open>Keywords and scores\<close>

definition HE_STOPWORDS :: "ustr set" where
  "HE_STOPWORDS = set [
     [1513, 1500], [1506, 1500], [1488, 1500], [1506, 1501], [1488, 1501], [1488, 1493],
     [1490, 1501], [1493, 1499, 1503], [1493, 1499, 1503, 44], [1493, 1499, 1503, 46],
     [1493, 1499, 1503, 59], [1493, 1499, 1503, 58], [1493, 1499, 1503, 1470], [1499, 1500],
     [1500, 1500, 1488], [1502, 1489, 1500, 1497], [1500, 1488], [1499, 1503],
     [1497, 1499, 1493, 1500], [1497, 1499, 1493, 1500, 1492],
     [1497, 1499, 1493, 1500, 1497, 1501], [1497, 1492, 1497, 1492], [1514, 1492, 1497, 1492],
     [1500, 1508, 1497], [1506, 1500, 1470, 1508, 1497], [1500, 1508, 1497, 1492],
     [1489, 1492, 1514, 1488, 1501], [1500, 1499, 1498], [1499, 1502, 1493],
     [1493, 1499, 1493], [1493, 1499, 1493, 39], [1493, 1499, 1493, 8217, 46],
     [1493, 1499, 1493, 8217], [1493, 1499, 1493, 1523], [1492, 1493, 1488],
     [1492, 1497, 1488], [1492, 1501], [1492, 1503], [1513, 1500, 1493], [1513, 1500, 1492],
     [1513, 1500, 1492, 1501], [1500, 1492, 1497, 1493, 1514], [1500, 1492], [1500, 1493],
     [1488, 1500, 1497, 1493], [1488, 1500, 1497, 1492], [1494, 1492], [1494, 1488, 1514],
     [1488, 1500, 1492], [1488, 1513, 1512], [1499, 1497], [1499, 1498], [1499, 1498, 44],
     [1499, 1498, 46], [1499, 1498, 59], [1499, 1498, 58], [1502, 45], [1500, 45], [1489, 45],
     [1499, 45], [1493, 45], [1513, 45]]"

text \<open>
  The separator class of the tokenizer: white space and
  \<open>, . ; : ( ) [ ] { } " '\<close>, maqaf (1470), hyphen, en dash, em dash, slash, backslash.
\<close>

definition is_token_sep :: "nat \<Rightarrow> bool" where
  "is_token_sep c \<longleftrightarrow>
     isspace c \<or> c = 44 \<or> c = 46 \<or> c = 59 \<or> c = 58 \<or> c = 40 \<or> c = 41 \<or> c = 91 \<or> c = 93 \<or>
     c = 123 \<or> c = 125 \<or> c = 34 \<or> c = 39 \<or> c = 1470 \<or> c = 45 \<or> c = 8211 \<or> c = 8212 \<or>
     c = 47 \<or> c = 92"

definition TOKEN_SEP_RE :: "nat option \<Rightarrow> ustr \<Rightarrow> nat" where
  "TOKEN_SEP_RE prev xs = length (takeWhile is_token_sep xs)"

text \<open>The loop that removes duplicates: \<open>seen\<close> is the set, \<open>result\<close> the list.\<close>

definition dedup_step :: "ustr \<Rightarrow> ustr set \<times> ustr list \<Rightarrow> ustr set \<times> ustr list" where
  "dedup_step t st =
     (case st of (seen, result) \<Rightarrow>
        if t \<notin> seen then (insert t seen, result @ [t]) else (seen, result))"

definition keywords_from_query :: "ustr \<Rightarrow> int \<Rightarrow> ustr list" where
  "keywords_from_query query min_len =
     (let qn = normalize_hebrew query;
          tokens = re_split TOKEN_SEP_RE None [] qn;
          kws = filter (\<lambda>t. t \<noteq> [] \<and> min_len \<le> int (length t) \<and> t \<notin> HE_STOPWORDS) tokens
      in snd (fold dedup_step kws ({}, [])))"

definition match_score :: "ustr \<Rightarrow> ustr list \<Rightarrow> int" where
  "match_score text_norm keywords =
     fold (\<lambda>kw score. if kw \<noteq> [] \<and> sublist kw text_norm then score + 1 else score) keywords 0"

text \<open>
  The two scans of \<open>best_snippet_for_query_in_doc\<close> share their body: a segment replaces
  the best one only when its score is strictly greater.
\<close>

definition scan_step :: "ustr list \<Rightarrow> ustr \<Rightarrow> ustr option \<times> int \<Rightarrow> ustr option \<times> int" where
  "scan_step kws seg st =
     (case st of (best, best_score) \<Rightarrow>
        let score = match_score (normalize_hebrew seg) kws
        in if best_score < score then (Some seg, score) else (best, best_score))"

text \<open>The scan of the paragraphs: \<open>best_para\<close> and \<open>best_score\<close> after the first loop.\<close>

definition scan_paragraphs :: "ustr list \<Rightarrow> ustr \<Rightarrow> ustr option \<times> int" where
  "scan_paragraphs kws doc_text = fold (scan_step kws) (split_to_paragraphs doc_text) (None, 0)"

text \<open>
  The scan of the sentences, entered only when the score is still 0: \<open>best_sent\<close> and
  \<open>best_score\<close> after the second loop.
\<close>

definition scan_sentences :: "ustr list \<Rightarrow> ustr \<Rightarrow> int \<Rightarrow> ustr option \<times> int" where
  "scan_sentences kws doc_text best_score =
     (if best_score = 0
      then fold (scan_step kws) (split_to_sentences doc_text) (None, best_score)
      else (None, best_score))"

text \<open>\<open>raw_snippet = best_para if best_para is not None else best_sent\<close>.\<close>

definition raw_snippet_of :: "ustr option \<Rightarrow> ustr option \<Rightarrow> ustr option" where
  "raw_snippet_of best_para best_sent = (case best_para of Some p \<Rightarrow> Some p | None \<Rightarrow> best_sent)"

text \<open>The window of the second citation lookup: 400 characters on each side.\<close>

definition citation_window :: "ustr \<Rightarrow> nat \<Rightarrow> ustr \<Rightarrow> ustr" where
  "citation_window doc_text idx best_para =
     py_slice (nat (max 0 (int idx - 400))) (idx + length best_para + 400) doc_text"

text \<open>
  The citation lookup: in the snippet itself, and, when that finds nothing and the snippet
  is a paragraph, in the window around the paragraph. A \<open>ValueError\<close> of \<open>index\<close> is
  caught and leaves the reference empty.
\<close>

definition lookup_section_ref ::
  "unicode_tables \<Rightarrow> ustr \<Rightarrow> ustr option \<Rightarrow> ustr \<Rightarrow> ustr option" where
  "lookup_section_ref U doc_text best_para raw_snippet =
     (let section_ref = extract_section_ref U raw_snippet in
      if section_ref = None \<and> best_para \<noteq> None
      then (case str_index doc_text (the best_para) of
              Inr idx \<Rightarrow> extract_section_ref U (citation_window doc_text idx (the best_para))
            | Inl e \<Rightarrow> section_ref)
      else section_ref)"

text \<open>The cut to \<open>max_snippet_chars\<close>; 8230 is the ellipsis.\<close>

definition truncate_snippet :: "int \<Rightarrow> ustr \<Rightarrow> ustr" where
  "truncate_snippet max_snippet_chars raw_snippet =
     (let snippet = strip raw_snippet in
      if max_snippet_chars < int (length snippet)
      then rstrip (py_prefix max_snippet_chars snippet) @ [8230]
      else snippet)"

section \<open>Input and output records\<close>

record CriteriaDocument =
  doc_id :: ustr
  content :: ustr

record RetrievedSection =
  source_id :: ustr
  text_str :: ustr
  section_ref :: "ustr option"

record RetrieverInput =
  criteria_queries :: "ustr list"
  criteria_documents :: "CriteriaDocument list"

record RetrieverOutput =
  retrieved_sections :: "RetrievedSection list"

text \<open>The validators. A string is blank when \<open>strip\<close> leaves nothing of it.\<close>

definition non_empty :: "ustr \<Rightarrow> error + ustr" where
  "non_empty v = (if strip v = [] then Inl ValidationError else Inr v)"

definition new_CriteriaDocument :: "ustr \<Rightarrow> ustr \<Rightarrow> error + CriteriaDocument" where
  "new_CriteriaDocument i c =
     (case (non_empty i, non_empty c) of
        (Inr i', Inr c') \<Rightarrow> Inr \<lparr>doc_id = i', content = c'\<rparr>
      | _ \<Rightarrow> Inl ValidationError)"

definition non_empty_queries :: "ustr list \<Rightarrow> error + ustr list" where
  "non_empty_queries v =
     (if v = [] \<or> \<not> list_all (\<lambda>q. strip q \<noteq> []) v then Inl ValidationError else Inr v)"

definition non_empty_docs :: "CriteriaDocument list \<Rightarrow> error + CriteriaDocument list" where
  "non_empty_docs v = (if v = [] then Inl ValidationError else Inr v)"

text \<open>Every document of the list is built, and validated, before the list is.\<close>

fun new_documents :: "(ustr \<times> ustr) list \<Rightarrow> error + CriteriaDocument list" where
  "new_documents [] = Inr []"
| "new_documents ((i, c) # rest) =
     (case new_CriteriaDocument i c of
        Inl e \<Rightarrow> Inl e
      | Inr d \<Rightarrow> (case new_documents rest of Inl e \<Rightarrow> Inl e | Inr ds \<Rightarrow> Inr (d # ds)))"

definition new_RetrieverInput :: "ustr list \<Rightarrow> (ustr \<times> ustr) list \<Rightarrow> error + RetrieverInput" where
  "new_RetrieverInput queries raw_docs =
     (case (non_empty_queries queries, new_documents raw_docs) of
        (Inr qs, Inr ds) \<Rightarrow>
          (case non_empty_docs ds of
             Inr ds' \<Rightarrow> Inr \<lparr>criteria_queries = qs, criteria_documents = ds'\<rparr>
           | Inl e \<Rightarrow> Inl e)
      | _ \<Rightarrow> Inl ValidationError)"

section \<open>The retriever\<close>

definition best_snippet_for_query_in_doc ::
  "unicode_tables \<Rightarrow> ustr \<Rightarrow> CriteriaDocument \<Rightarrow> int \<Rightarrow> (ustr \<times> ustr option) option" where
  "best_snippet_for_query_in_doc U query doc max_snippet_chars =
     (let kws = keywords_from_query query 2 in
      if kws = [] then None
      else
        (case scan_paragraphs kws (content doc) of (best_para, score1) \<Rightarrow>
         (case scan_sentences kws (content doc) score1 of (best_sent, best_score) \<Rightarrow>
            if best_score = 0 then None
            else
              (case raw_snippet_of best_para best_sent of
                 None \<Rightarrow> None
               | Some raw_snippet \<Rightarrow>
                   if raw_snippet = [] then None
                   else Some (truncate_snippet max_snippet_chars raw_snippet,
                              lookup_section_ref U (content doc) best_para raw_snippet)))))"

text \<open>The sentinel record; its text is the fixed sentence of the source, by code points.\<close>

definition no_match_text :: ustr where
  "no_match_text =
     [1500, 1488, 32, 1504, 1502, 1510, 1488, 32, 1502, 1497, 1491, 1506, 32, 1514, 1493, 1488,
      1501, 32, 1500, 1513, 1488, 1497, 1500, 1514, 1492, 32, 1489, 1502, 1505, 1502, 1499,
      1497, 32, 1492, 1511, 1512, 1497, 1496, 1512, 1497, 1493, 1504, 1497, 1501, 32, 1513,
      1505, 1493, 1508, 1511, 1493, 46]"

definition sentinel :: RetrievedSection where
  "sentinel = \<lparr>source_id = [78, 47, 65], text_str = no_match_text, section_ref = None\<rparr>"

text \<open>The inner loop over the documents: the candidates of one query.\<close>

definition collect_step ::
  "unicode_tables \<Rightarrow> ustr \<Rightarrow> CriteriaDocument \<Rightarrow> (ustr \<times> ustr \<times> ustr option) list
     \<Rightarrow> (ustr \<times> ustr \<times> ustr option) list" where
  "collect_step U q d candidates =
     (case best_snippet_for_query_in_doc U q d 700 of
        None \<Rightarrow> candidates
      | Some (snippet, ref) \<Rightarrow> candidates @ [(doc_id d, snippet, ref)])"

definition emit_step :: "ustr \<times> ustr \<times> ustr option \<Rightarrow> RetrievedSection list \<Rightarrow> RetrievedSection list" where
  "emit_step cand results =
     (case cand of (i, snippet, ref) \<Rightarrow>
        results @ [\<lparr>source_id = i, text_str = snippet, section_ref = ref\<rparr>])"

text \<open>The body of the outer loop: what one query adds to \<open>results\<close>.\<close>

definition query_step ::
  "unicode_tables \<Rightarrow> CriteriaDocument list \<Rightarrow> int \<Rightarrow> ustr \<Rightarrow> RetrievedSection list
     \<Rightarrow> RetrievedSection list" where
  "query_step U docs max_per_query q results =
     (let candidates = fold (collect_step U q) docs [] in
      if candidates = [] then results @ [sentinel]
      else fold emit_step (py_prefix max_per_query candidates) results)"

definition retrieve :: "unicode_tables \<Rightarrow> RetrieverInput \<Rightarrow> int \<Rightarrow> RetrieverOutput" where
  "retrieve U input_data max_per_query =
     \<lparr>retrieved_sections =
        fold (query_step U (criteria_documents input_data) max_per_query)
             (criteria_queries input_data) []\<rparr>"

section \<open>Notions for the properties\<close>

text \<open>The score of a segment, as both scans compute it.\<close>

abbreviation segment_score :: "ustr list \<Rightarrow> ustr \<Rightarrow> int" where
  "segment_score kws seg \<equiv> match_score (normalize_hebrew seg) kws"

text \<open>
  Tables for the evaluation at concrete inputs: the digits 0 to 9, and as word characters
  the digits, the Latin letters, the underscore and the Hebrew letters. On texts of these
  characters, white space and punctuation they agree with the tables of the runtime.
\<close>

definition basic_tables :: unicode_tables where
  "basic_tables =
     \<lparr>uni_digit = (\<lambda>c. 48 \<le> c \<and> c \<le> 57),
      uni_word = (\<lambda>c. (48 \<le> c \<and> c \<le> 57) \<or> (65 \<le> c \<and> c \<le> 90) \<or> c = 95 \<or>
                      (97 \<le> c \<and> c \<le> 122) \<or> (1488 \<le> c \<and> c \<le> 1514))\<rparr>"

text \<open>
  The use of the module, as in its example: the input is built from the raw queries and
  documents and \<open>retrieve\<close> is called on it. An exception of a constructor ends the run
  before \<open>retrieve\<close> is reached.
\<close>

definition build_and_retrieve ::
  "unicode_tables \<Rightarrow> ustr list \<Rightarrow> (ustr \<times> ustr) list \<Rightarrow> int \<Rightarrow> error + RetrieverOutput" where
  "build_and_retrieve U queries raw_docs max_per_query =
     (case new_RetrieverInput queries raw_docs of
        Inl e \<Rightarrow> Inl e
      | Inr input_data \<Rightarrow> Inr (retrieve U input_data max_per_query))"

text \<open>
  The keyword pipeline in the words of the spec, for comparison with \<open>keywords_from_query\<close>:
  the normalized query is cut at every separator character, tokens shorter than the
  minimum length are dropped, then stop-words, and of equal tokens the first is kept.
\<close>

fun split_on :: "('a \<Rightarrow> bool) \<Rightarrow> 'a list \<Rightarrow> 'a list list" where
  "split_on P [] = [[]]"
| "split_on P (x # xs) =
     (if P x then [] # split_on P xs
      else (case split_on P xs of [] \<Rightarrow> [[x]] | t # ts \<Rightarrow> (x # t) # ts))"

function first_occurrences :: "'a list \<Rightarrow> 'a list" where
  "first_occurrences [] = []"
| "first_occurrences (x # xs) = x # first_occurrences (filter (\<lambda>y. y \<noteq> x) xs)"
  by pat_completeness auto
termination
  by (relation "measure length") (auto simp: less_Suc_eq_le)

definition extract_keywords_spec :: "ustr \<Rightarrow> nat \<Rightarrow> ustr list" where
  "extract_keywords_spec query min_length =
     (let tokens = split_on is_token_sep (normalize_hebrew query);
          long_enough = filter (\<lambda>t. min_length \<le> length t) tokens;
          kept = filter (\<lambda>t. t \<notin> HE_STOPWORDS) long_enough
      in first_occurrences kept)"

text \<open>
  The \<open>raw_snippet\<close> that \<open>best_snippet_for_query_in_doc\<close> settles on for a query and a
  document: the best paragraph, or else the best sentence.
\<close>

definition chosen_segment :: "ustr \<Rightarrow> CriteriaDocument \<Rightarrow> ustr option" where
  "chosen_segment q d =
     (let kws = keywords_from_query q 2 in
      case scan_paragraphs kws (content d) of (best_para, score1) \<Rightarrow>
      (case scan_sentences kws (content d) score1 of (best_sent, best_score) \<Rightarrow>
         if best_score = 0 then None else raw_snippet_of best_para best_sent))"

text \<open>The score \<open>best_score\<close> at the end of both scans of \<open>best_snippet_for_query_in_doc\<close>.\<close>

definition final_best_score :: "ustr \<Rightarrow> CriteriaDocument \<Rightarrow> int" where
  "final_best_score q d =
     (let kws = keywords_from_query q 2 in
      snd (scan_sentences kws (content d) (snd (scan_paragraphs kws (content d)))))"

text \<open>The records that one query contributes, and the documents in which it matches.\<close>

definition batch_of ::
  "unicode_tables \<Rightarrow> CriteriaDocument list \<Rightarrow> int \<Rightarrow> ustr \<Rightarrow> RetrievedSection list" where
  "batch_of U docs max_per_query q = query_step U docs max_per_query q []"

definition matching_docs :: "unicode_tables \<Rightarrow> ustr \<Rightarrow> CriteriaDocument list \<Rightarrow> CriteriaDocument list" where
  "matching_docs U q docs = filter (\<lambda>d. best_snippet_for_query_in_doc U q d 700 \<noteq> None) docs"

text \<open>The record emitted for a document in which the query matches.\<close>

definition section_of :: "unicode_tables \<Rightarrow> ustr \<Rightarrow> CriteriaDocument \<Rightarrow> RetrievedSection" where
  "section_of U q d =
     \<lparr>source_id = doc_id d,
      text_str = fst (the (best_snippet_for_query_in_doc U q d 700)),
      section_ref = snd (the (best_snippet_for_query_in_doc U q d 700))\<rparr>"

text \<open>The text without its vowel points, as \<open>normalize_hebrew\<close> first makes it.\<close>

abbreviation strip_niqqud :: "ustr \<Rightarrow> ustr" where
  "strip_niqqud t \<equiv> filter (\<lambda>c. \<not> is_niqqud c) t"

section \<open>Properties of the string operations\<close>

lemma sublist_lstrip: "sublist (lstrip s) s"
  by (simp add: lstrip_def)

lemma sublist_rstrip: "sublist (rstrip s) s"
  unfolding rstrip_def by (metis sublist_dropWhile sublist_rev_left)

lemma sublist_strip: "sublist (strip s) s"
  unfolding strip_def by (meson sublist_lstrip sublist_rstrip sublist_order.order_trans)

lemma rstrip_append_decomp: "\<exists>ws. s = rstrip s @ ws \<and> (\<forall>c\<in>set ws. isspace c)"
proof -
  have "rev s = takeWhile isspace (rev s) @ dropWhile isspace (rev s)" by simp
  then have "s = rev (dropWhile isspace (rev s)) @ rev (takeWhile isspace (rev s))"
    by (metis rev_append rev_rev_ident)
  moreover have "\<forall>c\<in>set (rev (takeWhile isspace (rev s))). isspace c"
    by (auto dest: set_takeWhileD)
  ultimately show ?thesis unfolding rstrip_def by blast
qed

lemma lstrip_append_decomp: "\<exists>ws. s = ws @ lstrip s \<and> (\<forall>c\<in>set ws. isspace c)"
proof -
  have "s = takeWhile isspace s @ dropWhile isspace s" by simp
  moreover have "\<forall>c\<in>set (takeWhile isspace s). isspace c" by (auto dest: set_takeWhileD)
  ultimately show ?thesis unfolding lstrip_def by blast
qed

lemma strip_decomp:
  "\<exists>l r. s = l @ strip s @ r \<and> (\<forall>c\<in>set l. isspace c) \<and> (\<forall>c\<in>set r. isspace c)"
proof -
  obtain l where l: "s = l @ lstrip s" "\<forall>c\<in>set l. isspace c"
    using lstrip_append_decomp by blast
  obtain r where r: "lstrip s = rstrip (lstrip s) @ r" "\<forall>c\<in>set r. isspace c"
    using rstrip_append_decomp by blast
  have "s = l @ strip s @ r" using l(1) r(1) by (simp add: strip_def)
  then show ?thesis using l(2) r(2) by blast
qed

lemma rstrip_last: "rstrip s \<noteq> [] \<Longrightarrow> \<not> isspace (last (rstrip s))"
  unfolding rstrip_def by (metis hd_dropWhile hd_rev rev_is_Nil_conv rev_rev_ident)

lemma lstrip_hd: "lstrip s \<noteq> [] \<Longrightarrow> \<not> isspace (hd (lstrip s))"
  unfolding lstrip_def by (rule hd_dropWhile)

lemma rstrip_hd: "rstrip s \<noteq> [] \<Longrightarrow> hd (rstrip s) = hd s"
proof -
  assume a: "rstrip s \<noteq> []"
  obtain ws where "s = rstrip s @ ws" using rstrip_append_decomp by blast
  then show ?thesis using a by (metis hd_append2)
qed

lemma strip_hd: "strip s \<noteq> [] \<Longrightarrow> \<not> isspace (hd (strip s))"
  unfolding strip_def by (metis lstrip_hd rstrip_hd rstrip_def dropWhile.simps(1) rev.simps(1))

lemma strip_last: "strip s \<noteq> [] \<Longrightarrow> \<not> isspace (last (strip s))"
  unfolding strip_def by (rule rstrip_last)

lemma lstrip_id: "s \<noteq> [] \<Longrightarrow> \<not> isspace (hd s) \<Longrightarrow> lstrip s = s"
  by (cases s) (simp_all add: lstrip_def)

lemma rstrip_id: "s \<noteq> [] \<Longrightarrow> \<not> isspace (last s) \<Longrightarrow> rstrip s = s"
  by (cases s rule: rev_cases) (simp_all add: rstrip_def)

lemma strip_idem: "strip (strip s) = strip s"
proof (cases "strip s = []")
  case True
  have "strip [] = []" by (simp add: strip_def lstrip_def rstrip_def)
  then show ?thesis using True by simp
next
  case False
  then have "lstrip (strip s) = strip s" by (simp add: lstrip_id strip_hd)
  moreover have "rstrip (strip s) = strip s" using False by (simp add: rstrip_id strip_last)
  ultimately show ?thesis by (simp add: strip_def[of "strip s"])
qed

lemma str_index_sublist: "sublist p c \<Longrightarrow> \<exists>i. str_index c p = Inr i"
proof (induction c)
  case Nil
  then show ?case by simp
next
  case (Cons a c)
  then show ?case by (auto simp: sublist_Cons_right split: sum.splits)
qed

lemma str_index_sound:
  "str_index c p = Inr i \<Longrightarrow> prefix p (drop i c) \<and> i + length p \<le> length c"
proof (induction c arbitrary: i)
  case Nil
  then show ?case by (simp split: if_splits)
next
  case (Cons a c)
  show ?case
  proof (cases "prefix p (a # c)")
    case True
    then have "i = 0" using Cons.prems by simp
    then show ?thesis using True prefix_length_le[OF True] by simp
  next
    case False
    then obtain j where j: "str_index c p = Inr j" "i = Suc j"
      using Cons.prems by (auto split: sum.splits)
    then show ?thesis using Cons.IH[OF j(1)] by simp
  qed
qed

lemma re_split_sublist:
  "p \<in> set (re_split m prev acc xs) \<Longrightarrow> sublist p (rev acc @ xs)"
proof (induction m prev acc xs rule: re_split.induct)
  case (1 m prev acc)
  then show ?case by simp
next
  case (2 m prev acc c cs)
  show ?case
  proof (cases "m prev (c # cs) = 0")
    case True
    then have "p \<in> set (re_split m (Some c) (c # acc) cs)" using "2.prems" by simp
    then have "sublist p (rev (c # acc) @ cs)" using "2.IH"(1) True by simp
    then show ?thesis by simp
  next
    case False
    define n where "n = m prev (c # cs)"
    have n0: "n \<noteq> 0" using False n_def by simp
    have "p = rev acc \<or> p \<in> set (re_split m (Some (last (take n (c # cs)))) [] (drop n (c # cs)))"
      using "2.prems" False n_def by (simp add: Let_def)
    then show ?thesis
    proof
      assume "p = rev acc"
      then show ?thesis by simp
    next
      assume "p \<in> set (re_split m (Some (last (take n (c # cs)))) [] (drop n (c # cs)))"
      then have "sublist p (rev [] @ drop n (c # cs))"
        using "2.IH"(2)[OF n_def n0] by simp
      then have "sublist p (drop n (c # cs))" by simp
      then have "sublist p (c # cs)" by (meson sublist_drop sublist_order.order_trans)
      then show ?thesis by (meson sublist_append_leftI sublist_order.order_trans)
    qed
  qed
qed

lemma splitlines_from_sublist:
  "p \<in> set (splitlines_from acc xs) \<Longrightarrow> sublist p (rev acc @ xs)"
proof (induction acc xs rule: splitlines_from.induct)
  case (1 acc)
  then show ?case by (simp split: if_splits)
next
  case (2 acc c)
  then show ?case by (auto split: if_splits)
next
  case (3 acc c d cs)
  have tl1: "\<And>q. sublist q cs \<Longrightarrow> sublist q (rev acc @ c # d # cs)"
    by (metis append.assoc append_Cons append_Nil sublist_append_leftI sublist_order.order_trans)
  have tl2: "\<And>q. sublist q (d # cs) \<Longrightarrow> sublist q (rev acc @ c # d # cs)"
    by (metis append.assoc append_Cons append_Nil sublist_append_leftI sublist_order.order_trans)
  show ?case
  proof (cases "c = 13 \<and> d = 10")
    case True
    then have "p = rev acc \<or> p \<in> set (splitlines_from [] cs)" using "3.prems" by simp
    then show ?thesis using "3.IH"(1)[OF True] tl1 by auto
  next
    case False
    show ?thesis
    proof (cases "is_linebreak c")
      case True
      then have "p = rev acc \<or> p \<in> set (splitlines_from [] (d # cs))"
        using "3.prems" False by auto
      then show ?thesis using "3.IH"(2)[OF False True] tl2 by auto
    next
      case nb: False
      then have "p \<in> set (splitlines_from (c # acc) (d # cs))" using "3.prems" False by auto
      then show ?thesis using "3.IH"(3)[OF False nb] by simp
    qed
  qed
qed

lemma split_to_paragraphs_unit:
  assumes "p \<in> set (split_to_paragraphs c)"
  shows "sublist p c \<and> p \<noteq> [] \<and> strip p = p"
proof -
  have "\<exists>r. p = strip r \<and> strip r \<noteq> [] \<and> sublist r c"
  proof (cases "length (map strip (filter (\<lambda>p. strip p \<noteq> []) (re_split PARAGRAPH_SEP_RE None [] c))) \<le> 1")
    case True
    then have "p \<in> set (map strip (filter (\<lambda>p. strip p \<noteq> []) (splitlines c)))"
      using assms by (simp add: split_to_paragraphs_def Let_def)
    then obtain r where "r \<in> set (splitlines c)" "strip r \<noteq> []" "p = strip r" by auto
    then show ?thesis using splitlines_from_sublist[of r "[]" c] by (auto simp: splitlines_def)
  next
    case False
    then have "p \<in> set (map strip (filter (\<lambda>p. strip p \<noteq> []) (re_split PARAGRAPH_SEP_RE None [] c)))"
      using assms by (simp add: split_to_paragraphs_def Let_def)
    then obtain r where "r \<in> set (re_split PARAGRAPH_SEP_RE None [] c)" "strip r \<noteq> []" "p = strip r"
      by auto
    then show ?thesis using re_split_sublist[of r PARAGRAPH_SEP_RE None "[]" c] by auto
  qed
  then obtain r where r: "p = strip r" "strip r \<noteq> []" "sublist r c" by blast
  have "sublist p c" using r(1,3) sublist_strip sublist_order.order_trans by blast
  then show ?thesis using r by (simp add: strip_idem)
qed

section \<open>Scores and the scan loop\<close>

lemma match_score_fold:
  "fold (\<lambda>kw score. if kw \<noteq> [] \<and> sublist kw t then score + 1 else score) kws a
     = a + int (length (filter (\<lambda>kw. kw \<noteq> [] \<and> sublist kw t) kws))"
  by (induction kws arbitrary: a) simp_all

lemma match_score_count:
  "match_score t kws = int (length (filter (\<lambda>kw. kw \<noteq> [] \<and> sublist kw t) kws))"
  by (simp add: match_score_def match_score_fold)

lemma match_score_nonneg: "0 \<le> match_score t kws"
  by (simp add: match_score_count)

lemma match_score_pos_iff:
  "0 < match_score t kws \<longleftrightarrow> (\<exists>kw\<in>set kws. kw \<noteq> [] \<and> sublist kw t)"
  by (auto simp: match_score_count filter_empty_conv)

lemma scan_fold:
  assumes "fold (scan_step kws) segs (b0, s0) = (b, s)"
  shows "(\<forall>j<length segs. segment_score kws (segs ! j) \<le> s) \<and> s0 \<le> s \<and>
         ((b, s) = (b0, s0) \<or>
          (\<exists>i<length segs. b = Some (segs ! i) \<and> s = segment_score kws (segs ! i) \<and> s0 < s \<and>
             (\<forall>j<i. segment_score kws (segs ! j) < s)))"
  using assms
proof (induction segs arbitrary: b0 s0)
  case Nil
  then show ?case by simp
next
  case (Cons x xs)
  show ?case
  proof (cases "s0 < segment_score kws x")
    case True
    then have "scan_step kws x (b0, s0) = (Some x, segment_score kws x)"
      by (simp add: scan_step_def Let_def)
    then have f: "fold (scan_step kws) xs (Some x, segment_score kws x) = (b, s)"
      using Cons.prems by simp
    note ih = Cons.IH[OF f]
    from ih have le: "segment_score kws x \<le> s" by blast
    have all: "\<forall>j<length (x # xs). segment_score kws ((x # xs) ! j) \<le> s"
      using ih le by (auto simp: nth_Cons')
    from ih have "(b, s) = (Some x, segment_score kws x) \<or>
          (\<exists>i<length xs. b = Some (xs ! i) \<and> s = segment_score kws (xs ! i) \<and> segment_score kws x < s \<and>
             (\<forall>j<i. segment_score kws (xs ! j) < s))" by blast
    then have "\<exists>i<length (x # xs). b = Some ((x # xs) ! i) \<and> s = segment_score kws ((x # xs) ! i) \<and> s0 < s \<and>
             (\<forall>j<i. segment_score kws ((x # xs) ! j) < s)"
    proof
      assume "(b, s) = (Some x, segment_score kws x)"
      then show ?thesis using True by (intro exI[of _ 0]) simp
    next
      assume "\<exists>i<length xs. b = Some (xs ! i) \<and> s = segment_score kws (xs ! i) \<and> segment_score kws x < s \<and>
             (\<forall>j<i. segment_score kws (xs ! j) < s)"
      then obtain i where i: "i < length xs" "b = Some (xs ! i)" "s = segment_score kws (xs ! i)"
        "segment_score kws x < s" "\<forall>j<i. segment_score kws (xs ! j) < s" by blast
      have "\<forall>j<Suc i. segment_score kws ((x # xs) ! j) < s"
        using i(4,5) by (auto simp: nth_Cons')
      then show ?thesis using i True by (intro exI[of _ "Suc i"]) auto
    qed
    then show ?thesis using all True le by auto
  next
    case False
    then have "scan_step kws x (b0, s0) = (b0, s0)"
      by (simp add: scan_step_def Let_def)
    then have f: "fold (scan_step kws) xs (b0, s0) = (b, s)"
      using Cons.prems by simp
    note ih = Cons.IH[OF f]
    from ih have le: "s0 \<le> s" by blast
    have all: "\<forall>j<length (x # xs). segment_score kws ((x # xs) ! j) \<le> s"
      using ih le False by (auto simp: nth_Cons')
    from ih have "(b, s) = (b0, s0) \<or>
          (\<exists>i<length xs. b = Some (xs ! i) \<and> s = segment_score kws (xs ! i) \<and> s0 < s \<and>
             (\<forall>j<i. segment_score kws (xs ! j) < s))" by blast
    then have "(b, s) = (b0, s0) \<or> (\<exists>i<length (x # xs). b = Some ((x # xs) ! i) \<and> s = segment_score kws ((x # xs) ! i) \<and> s0 < s \<and>
             (\<forall>j<i. segment_score kws ((x # xs) ! j) < s))"
    proof
      assume "(b, s) = (b0, s0)"
      then show ?thesis by simp
    next
      assume "\<exists>i<length xs. b = Some (xs ! i) \<and> s = segment_score kws (xs ! i) \<and> s0 < s \<and>
             (\<forall>j<i. segment_score kws (xs ! j) < s)"
      then obtain i where i: "i < length xs" "b = Some (xs ! i)" "s = segment_score kws (xs ! i)"
        "s0 < s" "\<forall>j<i. segment_score kws (xs ! j) < s" by blast
      have "\<forall>j<Suc i. segment_score kws ((x # xs) ! j) < s"
        using i(4,5) False by (auto simp: nth_Cons')
      then have "\<exists>i<length (x # xs). b = Some ((x # xs) ! i) \<and> s = segment_score kws ((x # xs) ! i) \<and> s0 < s \<and>
             (\<forall>j<i. segment_score kws ((x # xs) ! j) < s)"
        using i by (intro exI[of _ "Suc i"]) auto
      then show ?thesis by blast
    qed
    then show ?thesis using all le by auto
  qed
qed

lemma scan_fold_init:
  assumes "fold (scan_step kws) segs (None, 0) = (b, s)"
  shows "(\<forall>j<length segs. segment_score kws (segs ! j) \<le> s) \<and> 0 \<le> s \<and>
         (s = 0 \<longrightarrow> b = None) \<and>
         (0 < s \<longrightarrow> (\<exists>i<length segs. b = Some (segs ! i) \<and> s = segment_score kws (segs ! i) \<and>
             (\<forall>j<i. segment_score kws (segs ! j) < s)))"
  using scan_fold[OF assms] by auto

lemma scan_paragraphs_member:
  assumes "scan_paragraphs kws c = (Some bp, s)"
  shows "bp \<in> set (split_to_paragraphs c)"
proof -
  have f: "fold (scan_step kws) (split_to_paragraphs c) (None, 0) = (Some bp, s)"
    using assms by (simp add: scan_paragraphs_def)
  from scan_fold[OF f] show ?thesis by auto
qed

section \<open>Paragraphs are parts of the document\<close>

lemmas string_eval =
  strip_def lstrip_def rstrip_def isspace_def is_linebreak_def splitlines_def py_prefix_def
  py_slice_def is_niqqud_def is_blank_def normalize_hebrew_def PARAGRAPH_SEP_RE_def
  SENTENCE_SEP_RE_def TOKEN_SEP_RE_def is_token_sep_def split_to_paragraphs_def
  split_to_sentences_def Let_def sublist_code

lemmas retriever_eval =
  string_eval keywords_from_query_def HE_STOPWORDS_def dedup_step_def match_score_def
  scan_step_def scan_paragraphs_def scan_sentences_def raw_snippet_of_def citation_window_def
  lookup_section_ref_def truncate_snippet_def best_snippet_for_query_in_doc_def
  SECTION_REF_RE_def ref_tail_class_def basic_tables_def

text \<open>
  C4. The spec says that paragraphs are split on blank-line boundaries first. On the text
  \<open>a\nb\n\nc\<close> the code cuts at the single line feed as well and returns three units.
\<close>

theorem split_to_paragraphs_cuts_single_breaks:
  "split_to_paragraphs [97, 10, 98, 10, 10, 99] = [[97], [98], [99]]"
  by (simp add: split_to_paragraphs_def PARAGRAPH_SEP_RE_def strip_def lstrip_def rstrip_def
      isspace_def Let_def)

text \<open>
  C10. Every unit that \<open>split_to_paragraphs\<close> returns is a contiguous part of the text, so
  \<open>index\<close> finds it and the lookup in the window never takes the \<open>ValueError\<close> branch:
  for the paragraph kept by the scan, the reference is the one found in the paragraph or
  else the one found in the window at the index.
\<close>

theorem paragraph_index_never_raises:
  "(\<forall>p\<in>set (split_to_paragraphs c).
       sublist p c \<and> (\<exists>idx. str_index c p = Inr idx \<and> take (length p) (drop idx c) = p)) \<and>
   (\<forall>bp s. scan_paragraphs kws c = (Some bp, s) \<longrightarrow>
       (\<exists>idx. str_index c bp = Inr idx \<and>
          lookup_section_ref U c (Some bp) bp =
            (case extract_section_ref U bp of
               Some r \<Rightarrow> Some r
             | None \<Rightarrow> extract_section_ref U (citation_window c idx bp))))"
proof -
  have a: "sublist p c \<and> (\<exists>idx. str_index c p = Inr idx \<and> take (length p) (drop idx c) = p)"
    if "p \<in> set (split_to_paragraphs c)" for p
  proof -
    have sub: "sublist p c" using split_to_paragraphs_unit[OF that] by simp
    then obtain idx where idx: "str_index c p = Inr idx" using str_index_sublist by blast
    have "prefix p (drop idx c)" using str_index_sound[OF idx] by simp
    then have "take (length p) (drop idx c) = p" by (metis append_eq_conv_conj prefixE)
    then show ?thesis using sub idx by blast
  qed
  have b: "\<exists>idx. str_index c bp = Inr idx \<and>
          lookup_section_ref U c (Some bp) bp =
            (case extract_section_ref U bp of
               Some r \<Rightarrow> Some r
             | None \<Rightarrow> extract_section_ref U (citation_window c idx bp))"
    if "scan_paragraphs kws c = (Some bp, s)" for bp s
  proof -
    have "bp \<in> set (split_to_paragraphs c)" using scan_paragraphs_member[OF that] .
    then obtain idx where idx: "str_index c bp = Inr idx" using a by blast
    then show ?thesis by (auto simp: lookup_section_ref_def Let_def split: option.splits)
  qed
  show ?thesis using a b by blast
qed

theorem paragraph_index_never_raises_witness:
  "[99, 100] \<in> set (split_to_paragraphs [97, 98, 10, 99, 100]) \<and>
   sublist [99, 100] [97, 98, 10, 99, 100] \<and>
   str_index [97, 98, 10, 99, 100] [99, 100] = Inr 3 \<and>
   scan_paragraphs [[99, 100]] [97, 98, 10, 99, 100] = (Some [99, 100], 1) \<and>
   lookup_section_ref basic_tables [97, 98, 10, 99, 100] (Some [99, 100]) [99, 100] =
     extract_section_ref basic_tables (citation_window [97, 98, 10, 99, 100] 3 [99, 100])"
  using paragraph_index_never_raises[of "[97, 98, 10, 99, 100]" "[[99, 100]]" basic_tables]
  by (simp add: retriever_eval)

section \<open>Validation of the input\<close>

lemma new_documents_eq:
  "new_documents raw =
     (if \<exists>(i, c)\<in>set raw. strip i = [] \<or> strip c = [] then Inl ValidationError
      else Inr (map (\<lambda>(i, c). \<lparr>doc_id = i, content = c\<rparr>) raw))"
proof (induction raw)
  case Nil
  then show ?case by simp
next
  case (Cons a raw)
  obtain i c where a: "a = (i, c)" by (cases a)
  show ?case
    by (simp add: a Cons.IH new_CriteriaDocument_def non_empty_def)
qed

text \<open>
  C8. Building the input fails, with a validation error, exactly when the query list is
  empty, a query is blank, the document list is empty, or a document has a blank id or
  blank content. When it succeeds the input holds the queries and documents unchanged.
  A run that builds the input and then retrieves ends with the validation error on such
  input: no output is produced.
\<close>

theorem retriever_input_validation:
  "(new_RetrieverInput qs raw = Inl ValidationError \<longleftrightarrow>
      qs = [] \<or> (\<exists>q\<in>set qs. strip q = []) \<or> raw = [] \<or>
      (\<exists>(i, c)\<in>set raw. strip i = [] \<or> strip c = [])) \<and>
   (\<forall>e. new_RetrieverInput qs raw = Inl e \<longrightarrow>
      e = ValidationError \<and> build_and_retrieve U qs raw m = Inl ValidationError) \<and>
   (\<forall>inp. new_RetrieverInput qs raw = Inr inp \<longrightarrow>
      inp = \<lparr>criteria_queries = qs,
             criteria_documents = map (\<lambda>(i, c). \<lparr>doc_id = i, content = c\<rparr>) raw\<rparr> \<and>
      build_and_retrieve U qs raw m = Inr (retrieve U inp m))"
proof -
  have q: "non_empty_queries qs = (if qs = [] \<or> (\<exists>q\<in>set qs. strip q = []) then Inl ValidationError else Inr qs)"
    by (auto simp: non_empty_queries_def list_all_iff)
  have e: "map (\<lambda>(i, c). \<lparr>doc_id = i, content = c\<rparr>) raw = [] \<longleftrightarrow> raw = []" by simp
  show ?thesis
    by (auto simp: new_RetrieverInput_def build_and_retrieve_def non_empty_docs_def q
        new_documents_eq split: sum.splits if_splits)
qed

theorem retriever_input_validation_witness:
  "new_RetrieverInput [[97], [32, 9]] [([68], [97])] = Inl ValidationError \<and>
   build_and_retrieve basic_tables [[97], [32, 9]] [([68], [97])] 1 = Inl ValidationError \<and>
   new_RetrieverInput [[97]] [([68], [32])] = Inl ValidationError \<and>
   new_RetrieverInput [[97]] [([68], [97])] =
     Inr \<lparr>criteria_queries = [[97]], criteria_documents = [\<lparr>doc_id = [68], content = [97]\<rparr>]\<rparr>"
  using retriever_input_validation[of "[[97], [32, 9]]" "[([68], [97])]" basic_tables 1]
    retriever_input_validation[of "[[97]]" "[([68], [32])]" basic_tables 1]
    retriever_input_validation[of "[[97]]" "[([68], [97])]" basic_tables 1]
  by (simp add: string_eval new_RetrieverInput_def non_empty_queries_def non_empty_docs_def
      new_CriteriaDocument_def non_empty_def build_and_retrieve_def)

section \<open>The keyword pipeline\<close>

lemma first_occurrences_set: "set (first_occurrences xs) = set xs"
  by (induction xs rule: first_occurrences.induct) auto

lemma first_occurrences_distinct: "distinct (first_occurrences xs)"
  by (induction xs rule: first_occurrences.induct) (auto simp: first_occurrences_set)

lemma fold_dedup_step:
  "fold dedup_step xs (S, r) =
     (S \<union> set xs, r @ first_occurrences (filter (\<lambda>t. t \<notin> S) xs))"
proof (induction xs arbitrary: S r)
  case Nil
  then show ?case by simp
next
  case (Cons x xs)
  show ?case
  proof (cases "x \<in> S")
    case True
    then have "dedup_step x (S, r) = (S, r)" by (simp add: dedup_step_def)
    then show ?thesis using True Cons.IH[of S r] by auto
  next
    case False
    then have st: "dedup_step x (S, r) = (insert x S, r @ [x])" by (simp add: dedup_step_def)
    have "filter (\<lambda>y. y \<noteq> x) (filter (\<lambda>t. t \<notin> S) xs) = filter (\<lambda>t. t \<notin> insert x S) xs"
      by (induction xs) auto
    then show ?thesis using False st Cons.IH[of "insert x S" "r @ [x]"] by simp
  qed
qed

lemma split_on_not_Nil: "split_on P xs \<noteq> []"
  by (induction xs) (auto split: list.splits)

lemma split_on_dropWhile:
  "filter (\<lambda>t. t \<noteq> []) (split_on P (dropWhile P ys)) = filter (\<lambda>t. t \<noteq> []) (split_on P ys)"
  by (induction ys) auto

lemma split_on_unit_free: "\<forall>t\<in>set (split_on P xs). \<forall>c\<in>set t. \<not> P c"
proof (induction xs)
  case Nil
  then show ?case by simp
next
  case (Cons x xs)
  then show ?case by (cases "split_on P xs") auto
qed

lemma re_split_tokens:
  "m = TOKEN_SEP_RE \<Longrightarrow>
   filter (\<lambda>t. t \<noteq> []) (re_split m prev acc xs) =
   filter (\<lambda>t. t \<noteq> [])
     (case split_on is_token_sep xs of [] \<Rightarrow> [rev acc] | t # ts \<Rightarrow> (rev acc @ t) # ts)"
proof (induction m prev acc xs rule: re_split.induct)
  case (1 m prev acc)
  then show ?case by simp
next
  case (2 m prev acc c cs)
  obtain t ts where tts: "split_on is_token_sep cs = t # ts"
    using split_on_not_Nil[of is_token_sep cs] by (cases "split_on is_token_sep cs") auto
  show ?case
  proof (cases "is_token_sep c")
    case False
    then have n0: "m prev (c # cs) = 0" using "2.prems" by (simp add: TOKEN_SEP_RE_def)
    have "filter (\<lambda>t. t \<noteq> []) (re_split m prev acc (c # cs)) =
          filter (\<lambda>t. t \<noteq> []) (re_split m (Some c) (c # acc) cs)" using n0 by simp
    also have "\<dots> = filter (\<lambda>t. t \<noteq> []) ((rev (c # acc) @ t) # ts)"
      using "2.IH"(1)[OF refl n0 "2.prems"] tts by simp
    finally show ?thesis using False tts by simp
  next
    case True
    define n where "n = m prev (c # cs)"
    have n: "n = length (takeWhile is_token_sep (c # cs))" using "2.prems" n_def by (simp add: TOKEN_SEP_RE_def)
    have n0: "n \<noteq> 0" using True n by simp
    have d: "drop n (c # cs) = dropWhile is_token_sep cs"
      using True n dropWhile_eq_drop[of is_token_sep "c # cs"] by simp
    have "filter (\<lambda>t. t \<noteq> []) (re_split m prev acc (c # cs)) =
          filter (\<lambda>t. t \<noteq> []) (rev acc # re_split m (Some (last (take n (c # cs)))) [] (drop n (c # cs)))"
      using n0 n_def by (simp add: Let_def)
    also have "\<dots> = filter (\<lambda>t. t \<noteq> []) [rev acc] @
          filter (\<lambda>t. t \<noteq> []) (split_on is_token_sep (dropWhile is_token_sep cs))"
      using "2.IH"(2)[OF n_def n0 "2.prems"] d split_on_not_Nil[of is_token_sep "dropWhile is_token_sep cs"]
      by (cases "split_on is_token_sep (dropWhile is_token_sep cs)") auto
    also have "\<dots> = filter (\<lambda>t. t \<noteq> []) [rev acc] @ filter (\<lambda>t. t \<noteq> []) (split_on is_token_sep cs)"
      by (simp only: split_on_dropWhile)
    finally show ?thesis using True by simp
  qed
qed

lemma keywords_from_query_spec:
  assumes "1 \<le> n"
  shows "keywords_from_query q (int n) = extract_keywords_spec q n"
proof -
  define tokens where "tokens = re_split TOKEN_SEP_RE None [] (normalize_hebrew q)"
  define units where "units = split_on is_token_sep (normalize_hebrew q)"
  have ne: "filter (\<lambda>t. t \<noteq> []) tokens = filter (\<lambda>t. t \<noteq> []) units"
    using re_split_tokens[OF refl, of None "[]" "normalize_hebrew q"]
      split_on_not_Nil[of is_token_sep "normalize_hebrew q"]
    unfolding tokens_def units_def by (cases "split_on is_token_sep (normalize_hebrew q)") auto
  have f: "filter (\<lambda>t. t \<noteq> [] \<and> int n \<le> int (length t) \<and> t \<notin> HE_STOPWORDS) xs =
           filter (\<lambda>t. t \<notin> HE_STOPWORDS) (filter (\<lambda>t. n \<le> length t) (filter (\<lambda>t. t \<noteq> []) xs))" for xs :: "ustr list"
    by (induction xs) auto
  have g: "filter (\<lambda>t. n \<le> length t) (filter (\<lambda>t. t \<noteq> []) xs) = filter (\<lambda>t. n \<le> length t) xs" for xs :: "ustr list"
    using assms by (induction xs) auto
  have "filter (\<lambda>t. t \<noteq> [] \<and> int n \<le> int (length t) \<and> t \<notin> HE_STOPWORDS) tokens =
        filter (\<lambda>t. t \<notin> HE_STOPWORDS) (filter (\<lambda>t. n \<le> length t) units)"
    by (simp only: f ne g)
  then show ?thesis
    by (simp add: keywords_from_query_def extract_keywords_spec_def Let_def fold_dedup_step
        tokens_def[symmetric] units_def[symmetric])
qed

text \<open>
  C7. With the minimum length 2, \<open>keywords_from_query\<close> is the pipeline of the spec: the
  tokens of the normalized query, those shorter than 2 dropped, stop-words dropped, and
  of equal tokens the first occurrence kept, in order. The result has no duplicates, no
  stop-word, no token shorter than 2 and no separator character inside a token. The
  query of the spec's example (code points of its three Hebrew words) gives the two
  keywords of the example.
\<close>

theorem keywords_from_query_pipeline:
  "keywords_from_query q 2 = extract_keywords_spec q 2 \<and>
   distinct (keywords_from_query q 2) \<and>
   (\<forall>k\<in>set (keywords_from_query q 2).
      2 \<le> length k \<and> k \<notin> HE_STOPWORDS \<and> (\<forall>c\<in>set k. \<not> is_token_sep c)) \<and>
   keywords_from_query
     [1490, 1497, 1500, 32, 1490, 1497, 1500, 32, 1489, 1491, 1497, 1511, 1492] 2 =
     [[1490, 1497, 1500], [1489, 1491, 1497, 1511, 1492]]"
proof -
  have eq: "keywords_from_query q 2 = extract_keywords_spec q 2"
    using keywords_from_query_spec[of 2 q] by simp
  have d: "distinct (extract_keywords_spec q 2)"
    by (simp add: extract_keywords_spec_def Let_def first_occurrences_distinct)
  have m: "2 \<le> length k \<and> k \<notin> HE_STOPWORDS \<and> (\<forall>c\<in>set k. \<not> is_token_sep c)"
    if "k \<in> set (extract_keywords_spec q 2)" for k
    using that split_on_unit_free[of is_token_sep "normalize_hebrew q"]
    by (auto simp: extract_keywords_spec_def Let_def first_occurrences_set)
  have ex: "keywords_from_query
     [1490, 1497, 1500, 32, 1490, 1497, 1500, 32, 1489, 1491, 1497, 1511, 1492] 2 =
     [[1490, 1497, 1500], [1489, 1491, 1497, 1511, 1492]]"
    by (simp add: string_eval keywords_from_query_def HE_STOPWORDS_def dedup_step_def)
  show ?thesis using eq d m ex by simp
qed

theorem keywords_from_query_pipeline_witness:
  "keywords_from_query [1513, 1500, 32, 97, 44, 1490, 1497, 1500, 45, 1490, 1497, 1500] 2 =
     [[1490, 1497, 1500]] \<and>
   extract_keywords_spec [1513, 1500, 32, 97, 44, 1490, 1497, 1500, 45, 1490, 1497, 1500] 2 =
     [[1490, 1497, 1500]] \<and>
   [1490, 1497, 1500] \<notin> HE_STOPWORDS"
proof -
  have k: "keywords_from_query [1513, 1500, 32, 97, 44, 1490, 1497, 1500, 45, 1490, 1497, 1500] 2 =
     [[1490, 1497, 1500]]"
    by (simp add: string_eval keywords_from_query_def HE_STOPWORDS_def dedup_step_def)
  have "extract_keywords_spec [1513, 1500, 32, 97, 44, 1490, 1497, 1500, 45, 1490, 1497, 1500] 2 =
     keywords_from_query [1513, 1500, 32, 97, 44, 1490, 1497, 1500, 45, 1490, 1497, 1500] 2"
    using keywords_from_query_pipeline[of "[1513, 1500, 32, 97, 44, 1490, 1497, 1500, 45, 1490, 1497, 1500]"]
    by simp
  then show ?thesis using k by (simp add: HE_STOPWORDS_def)
qed

section \<open>The choice of the segment\<close>

lemma normalize_hebrew_Nil: "normalize_hebrew [] = []"
  by (simp add: normalize_hebrew_def strip_def lstrip_def rstrip_def)

lemma segment_score_pos_nonempty:
  assumes "0 < segment_score kws seg"
  shows "seg \<noteq> [] \<and> kws \<noteq> []"
proof -
  obtain kw where "kw \<in> set kws" "kw \<noteq> []" "sublist kw (normalize_hebrew seg)"
    using assms match_score_pos_iff by blast
  then show ?thesis using normalize_hebrew_Nil by (cases seg) auto
qed

lemma split_to_sentences_unit:
  assumes "p \<in> set (split_to_sentences c)"
  shows "sublist p c \<and> strip p = p"
proof -
  have "\<exists>r. p = strip r \<and> sublist r c"
  proof (cases "map strip (filter (\<lambda>s. s \<noteq> [] \<and> strip s \<noteq> []) (re_split SENTENCE_SEP_RE None [] c)) = []")
    case True
    then have "p = strip c" using assms by (simp add: split_to_sentences_def Let_def)
    then show ?thesis by auto
  next
    case False
    then have "p \<in> set (map strip (filter (\<lambda>s. s \<noteq> [] \<and> strip s \<noteq> []) (re_split SENTENCE_SEP_RE None [] c)))"
      using assms by (simp add: split_to_sentences_def Let_def)
    then obtain r where "r \<in> set (re_split SENTENCE_SEP_RE None [] c)" "p = strip r" by auto
    then show ?thesis using re_split_sublist[of r SENTENCE_SEP_RE None "[]" c] by auto
  qed
  then obtain r where r: "p = strip r" "sublist r c" by blast
  have "sublist p c" using r sublist_strip sublist_order.order_trans by blast
  then show ?thesis using r by (simp add: strip_idem)
qed

text \<open>What the two scans leave behind, in one statement.\<close>

lemma scans_anatomy:
  assumes p: "scan_paragraphs kws c = (bp, s1)" and s: "scan_sentences kws c s1 = (bs, s2)"
  shows "0 \<le> s1 \<and> 0 \<le> s2 \<and>
         (0 < s1 \<longrightarrow> s2 = s1 \<and> bs = None \<and> (\<exists>seg\<in>set (split_to_paragraphs c). bp = Some seg \<and> s1 = segment_score kws seg)) \<and>
         (s1 = 0 \<longrightarrow> bp = None \<and> (s2 = 0 \<longrightarrow> bs = None) \<and>
            (0 < s2 \<longrightarrow> (\<exists>seg\<in>set (split_to_sentences c). bs = Some seg \<and> s2 = segment_score kws seg)))"
proof -
  have fp: "fold (scan_step kws) (split_to_paragraphs c) (None, 0) = (bp, s1)"
    using p by (simp add: scan_paragraphs_def)
  note P = scan_fold_init[OF fp]
  have s1: "0 \<le> s1" using P by blast
  show ?thesis
  proof (cases "s1 = 0")
    case True
    then have fs: "fold (scan_step kws) (split_to_sentences c) (None, 0) = (bs, s2)"
      using s by (simp add: scan_sentences_def)
    note S = scan_fold_init[OF fs]
    have "0 < s2 \<longrightarrow> (\<exists>seg\<in>set (split_to_sentences c). bs = Some seg \<and> s2 = segment_score kws seg)"
      using S by (metis nth_mem)
    then show ?thesis using True P S by auto
  next
    case False
    then have pos: "0 < s1" using s1 by simp
    have "bs = None" "s2 = s1" using s False by (simp_all add: scan_sentences_def)
    moreover have "\<exists>seg\<in>set (split_to_paragraphs c). bp = Some seg \<and> s1 = segment_score kws seg"
      using P pos by (metis nth_mem)
    ultimately show ?thesis using pos by auto
  qed
qed

lemma best_snippet_anatomy:
  assumes k: "kws = keywords_from_query q 2"
    and p: "scan_paragraphs kws (content d) = (bp, s1)"
    and s: "scan_sentences kws (content d) s1 = (bs, s2)"
  shows "(s2 = 0 \<longrightarrow> best_snippet_for_query_in_doc U q d m = None) \<and>
         (0 < s2 \<longrightarrow> (\<exists>raw. raw_snippet_of bp bs = Some raw \<and> raw \<noteq> [] \<and> strip raw = raw \<and>
            best_snippet_for_query_in_doc U q d m =
              Some (truncate_snippet m raw, lookup_section_ref U (content d) bp raw)))"
proof -
  note A = scans_anatomy[OF p s]
  have zero: "s2 = 0 \<longrightarrow> best_snippet_for_query_in_doc U q d m = None"
    using k p s by (simp add: best_snippet_for_query_in_doc_def Let_def)
  have pos: "\<exists>raw. raw_snippet_of bp bs = Some raw \<and> raw \<noteq> [] \<and> strip raw = raw \<and>
            best_snippet_for_query_in_doc U q d m =
              Some (truncate_snippet m raw, lookup_section_ref U (content d) bp raw)" if s2: "0 < s2"
  proof -
    have "\<exists>raw. raw_snippet_of bp bs = Some raw \<and> raw \<noteq> [] \<and> strip raw = raw \<and> 0 < segment_score kws raw"
    proof (cases "0 < s1")
      case True
      then obtain seg where seg: "seg \<in> set (split_to_paragraphs (content d))" "bp = Some seg"
        "s1 = segment_score kws seg" using A by blast
      then show ?thesis using split_to_paragraphs_unit[OF seg(1)] True
        by (auto simp: raw_snippet_of_def)
    next
      case False
      then have z: "s1 = 0" using A by simp
      then obtain seg where seg: "seg \<in> set (split_to_sentences (content d))" "bs = Some seg"
        "s2 = segment_score kws seg" "bp = None" using A s2 by blast
      then show ?thesis using split_to_sentences_unit[OF seg(1)] s2
          segment_score_pos_nonempty[of seg kws]
        by (auto simp: raw_snippet_of_def)
    qed
    then obtain raw where raw: "raw_snippet_of bp bs = Some raw" "raw \<noteq> []" "strip raw = raw"
      "0 < segment_score kws raw" by blast
    have "kws \<noteq> []" using segment_score_pos_nonempty[OF raw(4)] by simp
    then have "best_snippet_for_query_in_doc U q d m =
              Some (truncate_snippet m raw, lookup_section_ref U (content d) bp raw)"
      using k p s s2 raw by (simp add: best_snippet_for_query_in_doc_def Let_def)
    then show ?thesis using raw by blast
  qed
  show ?thesis using zero pos by blast
qed

lemma best_snippet_None_iff:
  "best_snippet_for_query_in_doc U q d m = None \<longleftrightarrow> final_best_score q d = 0"
proof -
  obtain bp s1 where p: "scan_paragraphs (keywords_from_query q 2) (content d) = (bp, s1)"
    by (cases "scan_paragraphs (keywords_from_query q 2) (content d)")
  obtain bs s2 where s: "scan_sentences (keywords_from_query q 2) (content d) s1 = (bs, s2)"
    by (cases "scan_sentences (keywords_from_query q 2) (content d) s1")
  have f: "final_best_score q d = s2" using p s by (simp add: final_best_score_def Let_def)
  have "0 \<le> s2" using scans_anatomy[OF p s] by simp
  then show ?thesis using best_snippet_anatomy[OF refl p s, of U m] f by (cases "s2 = 0") auto
qed

lemma best_snippet_Some_chosen:
  assumes "best_snippet_for_query_in_doc U q d m = Some (t, r)"
  shows "\<exists>raw. chosen_segment q d = Some raw \<and> raw \<noteq> [] \<and> strip raw = raw \<and>
           t = truncate_snippet m raw \<and>
           r = lookup_section_ref U (content d) (fst (scan_paragraphs (keywords_from_query q 2) (content d))) raw"
proof -
  obtain bp s1 where p: "scan_paragraphs (keywords_from_query q 2) (content d) = (bp, s1)"
    by (cases "scan_paragraphs (keywords_from_query q 2) (content d)")
  obtain bs s2 where s: "scan_sentences (keywords_from_query q 2) (content d) s1 = (bs, s2)"
    by (cases "scan_sentences (keywords_from_query q 2) (content d) s1")
  note A = best_snippet_anatomy[OF refl p s, of U m]
  have "0 \<le> s2" using scans_anatomy[OF p s] by simp
  then have pos: "0 < s2" using A assms by (cases "s2 = 0") auto
  then obtain raw where raw: "raw_snippet_of bp bs = Some raw" "raw \<noteq> []" "strip raw = raw"
    "best_snippet_for_query_in_doc U q d m =
              Some (truncate_snippet m raw, lookup_section_ref U (content d) bp raw)"
    using A by blast
  have "chosen_segment q d = Some raw" using p s pos raw(1) by (simp add: chosen_segment_def Let_def)
  then show ?thesis using raw assms p by auto
qed

text \<open>
  C6. Both scans are the same loop, and for every list of segments it keeps the first
  segment of the highest score, provided that score is positive. When some paragraph
  scores above 0 the chosen segment is the first paragraph of the highest score and the
  sentences play no part. When no paragraph scores above 0 the chosen segment and the
  final score are those of the same loop over the sentences. A candidate is returned
  exactly when the final best score is greater than 0, and its text is cut from the
  chosen segment.
\<close>

theorem best_snippet_selection:
  "(\<forall>segs b s. fold (scan_step kws) segs (None, 0) = (b, s) \<longrightarrow>
       (\<forall>j<length segs. segment_score kws (segs ! j) \<le> s) \<and>
       (s = 0 \<longrightarrow> b = None) \<and>
       (0 < s \<longrightarrow> (\<exists>i<length segs. b = Some (segs ! i) \<and> segment_score kws (segs ! i) = s \<and>
                      (\<forall>j<i. segment_score kws (segs ! j) < s)))) \<and>
   ((\<exists>p\<in>set (split_to_paragraphs (content d)). 0 < segment_score (keywords_from_query q 2) p) \<longrightarrow>
      (\<exists>i<length (split_to_paragraphs (content d)).
         chosen_segment q d = Some (split_to_paragraphs (content d) ! i) \<and>
         final_best_score q d = segment_score (keywords_from_query q 2) (split_to_paragraphs (content d) ! i) \<and>
         0 < final_best_score q d \<and>
         (\<forall>j<length (split_to_paragraphs (content d)).
            segment_score (keywords_from_query q 2) (split_to_paragraphs (content d) ! j) \<le> final_best_score q d) \<and>
         (\<forall>j<i. segment_score (keywords_from_query q 2) (split_to_paragraphs (content d) ! j) < final_best_score q d))) \<and>
   ((\<forall>p\<in>set (split_to_paragraphs (content d)). segment_score (keywords_from_query q 2) p = 0) \<longrightarrow>
      (chosen_segment q d, final_best_score q d) =
        fold (scan_step (keywords_from_query q 2)) (split_to_sentences (content d)) (None, 0)) \<and>
   (best_snippet_for_query_in_doc U q d m \<noteq> None \<longleftrightarrow> 0 < final_best_score q d) \<and>
   (\<forall>t r. best_snippet_for_query_in_doc U q d m = Some (t, r) \<longrightarrow>
      (\<exists>seg. chosen_segment q d = Some seg \<and> t = truncate_snippet m seg))"
proof -
  define K where "K = keywords_from_query q 2"
  define P where "P = split_to_paragraphs (content d)"
  obtain bp s1 where p: "scan_paragraphs K (content d) = (bp, s1)"
    by (cases "scan_paragraphs K (content d)")
  obtain bs s2 where s: "scan_sentences K (content d) s1 = (bs, s2)"
    by (cases "scan_sentences K (content d) s1")
  have fp: "fold (scan_step K) P (None, 0) = (bp, s1)"
    using p by (simp add: scan_paragraphs_def P_def)
  note SP = scan_fold_init[OF fp]
  have SP1: "\<forall>j<length P. segment_score K (P ! j) \<le> s1" using SP by (rule conjunct1)
  have SP2: "s1 = 0 \<longrightarrow> bp = None" using SP by (elim conjE)
  have SP3: "0 < s1 \<longrightarrow> (\<exists>i<length P. bp = Some (P ! i) \<and> s1 = segment_score K (P ! i) \<and>
             (\<forall>j<i. segment_score K (P ! j) < s1))" using SP by (elim conjE)
  have SP0: "0 \<le> s1" using SP by (elim conjE)
  have fin: "final_best_score q d = s2"
    using p s by (simp add: final_best_score_def K_def Let_def)
  have cho: "chosen_segment q d = (if s2 = 0 then None else raw_snippet_of bp bs)"
    using p s by (simp add: chosen_segment_def K_def Let_def)
  have a: "\<forall>segs b s. fold (scan_step kws) segs (None, 0) = (b, s) \<longrightarrow>
       (\<forall>j<length segs. segment_score kws (segs ! j) \<le> s) \<and>
       (s = 0 \<longrightarrow> b = None) \<and>
       (0 < s \<longrightarrow> (\<exists>i<length segs. b = Some (segs ! i) \<and> segment_score kws (segs ! i) = s \<and>
                      (\<forall>j<i. segment_score kws (segs ! j) < s)))"
  proof (intro allI impI)
    fix segs b s
    assume f: "fold (scan_step kws) segs (None, 0) = (b, s)"
    note F = scan_fold_init[OF f]
    have F1: "\<forall>j<length segs. segment_score kws (segs ! j) \<le> s" using F by (rule conjunct1)
    have F2: "s = 0 \<longrightarrow> b = None" using F by (elim conjE)
    have F3: "0 < s \<longrightarrow> (\<exists>i<length segs. b = Some (segs ! i) \<and> s = segment_score kws (segs ! i) \<and>
             (\<forall>j<i. segment_score kws (segs ! j) < s))" using F by (elim conjE)
    have F3': "0 < s \<longrightarrow> (\<exists>i<length segs. b = Some (segs ! i) \<and> segment_score kws (segs ! i) = s \<and>
             (\<forall>j<i. segment_score kws (segs ! j) < s))"
    proof
      assume "0 < s"
      then obtain i where "i < length segs" "b = Some (segs ! i)" "s = segment_score kws (segs ! i)"
        "\<forall>j<i. segment_score kws (segs ! j) < s" using F3 by blast
      then show "\<exists>i<length segs. b = Some (segs ! i) \<and> segment_score kws (segs ! i) = s \<and>
             (\<forall>j<i. segment_score kws (segs ! j) < s)" by (intro exI[of _ i]) simp
    qed
    show "(\<forall>j<length segs. segment_score kws (segs ! j) \<le> s) \<and>
       (s = 0 \<longrightarrow> b = None) \<and>
       (0 < s \<longrightarrow> (\<exists>i<length segs. b = Some (segs ! i) \<and> segment_score kws (segs ! i) = s \<and>
                      (\<forall>j<i. segment_score kws (segs ! j) < s)))"
      using F1 F2 F3' by (intro conjI)
  qed
  have b: "(\<exists>p\<in>set P. 0 < segment_score K p) \<longrightarrow> (\<exists>i<length P. chosen_segment q d = Some (P ! i) \<and>
         final_best_score q d = segment_score K (P ! i) \<and> 0 < final_best_score q d \<and>
         (\<forall>j<length P. segment_score K (P ! j) \<le> final_best_score q d) \<and>
         (\<forall>j<i. segment_score K (P ! j) < final_best_score q d))"
  proof
    assume "\<exists>p\<in>set P. 0 < segment_score K p"
    then obtain p0 where "p0 \<in> set P" "0 < segment_score K p0" by blast
    then obtain j where j: "j < length P" "0 < segment_score K (P ! j)"
      by (metis in_set_conv_nth)
    have "segment_score K (P ! j) \<le> s1" using SP1 j(1) by blast
    then have pos: "0 < s1" using j(2) by linarith
    then obtain i where i: "i < length P" "bp = Some (P ! i)" "s1 = segment_score K (P ! i)"
      "\<forall>j<i. segment_score K (P ! j) < s1" using SP3 by blast
    have s2: "bs = None" "s2 = s1" using s pos by (simp_all add: scan_sentences_def)
    have ch: "chosen_segment q d = Some (P ! i)" using cho s2 pos i(2) by (simp add: raw_snippet_of_def)
    have f1: "final_best_score q d = s1" using fin s2 by simp
    show "\<exists>i<length P. chosen_segment q d = Some (P ! i) \<and>
         final_best_score q d = segment_score K (P ! i) \<and> 0 < final_best_score q d \<and>
         (\<forall>j<length P. segment_score K (P ! j) \<le> final_best_score q d) \<and>
         (\<forall>j<i. segment_score K (P ! j) < final_best_score q d)"
      unfolding f1 using i(1) ch i(3) pos SP1 i(4) by (intro exI[of _ i] conjI)
  qed
  have c: "(\<forall>p\<in>set P. segment_score K p = 0) \<longrightarrow> (chosen_segment q d, final_best_score q d) =
        fold (scan_step K) (split_to_sentences (content d)) (None, 0)"
  proof
    assume all0: "\<forall>p\<in>set P. segment_score K p = 0"
    have "\<not> 0 < s1"
    proof
      assume pos: "0 < s1"
      then obtain i where i: "i < length P" "s1 = segment_score K (P ! i)" using SP3 by blast
      have "segment_score K (P ! i) = 0" using all0 i(1) nth_mem by blast
      then show False using pos i(2) by simp
    qed
    then have z: "s1 = 0" using SP0 by linarith
    then have bpn: "bp = None" using SP2 by blast
    have fs: "fold (scan_step K) (split_to_sentences (content d)) (None, 0) = (bs, s2)"
      using s z by (simp add: scan_sentences_def)
    have "s2 = 0 \<longrightarrow> bs = None" using scan_fold_init[OF fs] by (elim conjE)
    then have "chosen_segment q d = bs" using cho bpn by (auto simp: raw_snippet_of_def)
    then show "(chosen_segment q d, final_best_score q d) =
        fold (scan_step K) (split_to_sentences (content d)) (None, 0)" using fs fin by simp
  qed
  have nn: "0 \<le> final_best_score q d" using scans_anatomy[OF p s] fin by simp
  have d': "best_snippet_for_query_in_doc U q d m \<noteq> None \<longleftrightarrow> 0 < final_best_score q d"
    using best_snippet_None_iff[of U q d m] nn by linarith
  have e: "\<forall>t r. best_snippet_for_query_in_doc U q d m = Some (t, r) \<longrightarrow>
      (\<exists>seg. chosen_segment q d = Some seg \<and> t = truncate_snippet m seg)"
  proof (intro allI impI)
    fix t r
    assume "best_snippet_for_query_in_doc U q d m = Some (t, r)"
    from best_snippet_Some_chosen[OF this]
    show "\<exists>seg. chosen_segment q d = Some seg \<and> t = truncate_snippet m seg" by blast
  qed
  show ?thesis using a b c d' e unfolding K_def P_def by (intro conjI)
qed

theorem best_snippet_selection_witness:
  "split_to_paragraphs [97, 98, 32, 120, 10, 97, 98, 32, 121, 10, 122] =
     [[97, 98, 32, 120], [97, 98, 32, 121], [122]] \<and>
   chosen_segment [97, 98] \<lparr>doc_id = [68], content = [97, 98, 32, 120, 10, 97, 98, 32, 121, 10, 122]\<rparr> =
     Some [97, 98, 32, 120] \<and>
   final_best_score [97, 98] \<lparr>doc_id = [68], content = [97, 98, 32, 120, 10, 97, 98, 32, 121, 10, 122]\<rparr> = 1 \<and>
   best_snippet_for_query_in_doc basic_tables [97, 98]
     \<lparr>doc_id = [68], content = [97, 98, 32, 120, 10, 97, 98, 32, 121, 10, 122]\<rparr> 700 =
     Some ([97, 98, 32, 120], None) \<and>
   final_best_score [99, 99] \<lparr>doc_id = [68], content = [97, 98, 32, 120, 10, 97, 98, 32, 121, 10, 122]\<rparr> = 0 \<and>
   best_snippet_for_query_in_doc basic_tables [99, 99]
     \<lparr>doc_id = [68], content = [97, 98, 32, 120, 10, 97, 98, 32, 121, 10, 122]\<rparr> 700 = None"
proof -
  define d where "d = \<lparr>doc_id = [68], content = [97, 98, 32, 120, 10, 97, 98, 32, 121, 10, 122]\<rparr>"
  have k1: "keywords_from_query [97, 98] 2 = [[97, 98]]"
    by (simp add: string_eval keywords_from_query_def HE_STOPWORDS_def dedup_step_def)
  have k2: "keywords_from_query [99, 99] 2 = [[99, 99]]"
    by (simp add: string_eval keywords_from_query_def HE_STOPWORDS_def dedup_step_def)
  have sp: "split_to_paragraphs [97, 98, 32, 120, 10, 97, 98, 32, 121, 10, 122] =
     [[97, 98, 32, 120], [97, 98, 32, 121], [122]]"
    by (simp add: string_eval)
  have ss: "split_to_sentences [97, 98, 32, 120, 10, 97, 98, 32, 121, 10, 122] =
     [[97, 98, 32, 120], [97, 98, 32, 121], [122]]"
    by (simp add: string_eval)
  have p1: "scan_paragraphs [[97, 98]] (content d) = (Some [97, 98, 32, 120], 1)"
    by (simp add: d_def scan_paragraphs_def sp scan_step_def match_score_def string_eval)
  have p2: "scan_paragraphs [[99, 99]] (content d) = (None, 0)"
    by (simp add: d_def scan_paragraphs_def sp scan_step_def match_score_def string_eval)
  have s2: "scan_sentences [[99, 99]] (content d) 0 = (None, 0)"
    by (simp add: d_def scan_sentences_def ss scan_step_def match_score_def string_eval)
  have c1: "chosen_segment [97, 98] d = Some [97, 98, 32, 120]"
    by (simp add: chosen_segment_def k1 p1 scan_sentences_def raw_snippet_of_def)
  have f1: "final_best_score [97, 98] d = 1"
    by (simp add: final_best_score_def k1 p1 scan_sentences_def)
  have f2: "final_best_score [99, 99] d = 0"
    by (simp add: final_best_score_def k2 p2 s2)
  note T1 = best_snippet_selection[of "[[97, 98]]" d "[97, 98]" basic_tables 700]
  note T2 = best_snippet_selection[of "[[97, 98]]" d "[99, 99]" basic_tables 700]
  have "best_snippet_for_query_in_doc basic_tables [99, 99] d 700 \<noteq> None \<longleftrightarrow>
        0 < final_best_score [99, 99] d" using T2 by (elim conjE)
  then have n2: "best_snippet_for_query_in_doc basic_tables [99, 99] d 700 = None"
    using f2 by (cases "best_snippet_for_query_in_doc basic_tables [99, 99] d 700") auto
  have "best_snippet_for_query_in_doc basic_tables [97, 98] d 700 \<noteq> None \<longleftrightarrow>
        0 < final_best_score [97, 98] d" using T1 by (elim conjE)
  then have n1: "best_snippet_for_query_in_doc basic_tables [97, 98] d 700 \<noteq> None"
    using f1 by simp
  have b1: "best_snippet_for_query_in_doc basic_tables [97, 98] d 700 = Some ([97, 98, 32, 120], None)"
    by (simp add: d_def retriever_eval)
  show ?thesis using sp c1 f1 b1 f2 n2 n1 unfolding d_def by simp
qed

section \<open>The output of the retriever\<close>

lemma py_prefix_map: "py_prefix n (map f xs) = map f (py_prefix n xs)"
  by (simp add: py_prefix_def take_map)

lemma fold_collect_step:
  "fold (collect_step U q) docs acc =
     acc @ map (\<lambda>d. (doc_id d, fst (the (best_snippet_for_query_in_doc U q d 700)),
                      snd (the (best_snippet_for_query_in_doc U q d 700))))
            (matching_docs U q docs)"
proof (induction docs arbitrary: acc)
  case Nil
  then show ?case by (simp add: matching_docs_def)
next
  case (Cons d docs)
  show ?case
  proof (cases "best_snippet_for_query_in_doc U q d 700")
    case None
    then have "collect_step U q d acc = acc" by (simp add: collect_step_def)
    then show ?thesis using None Cons.IH[of acc] by (simp add: matching_docs_def)
  next
    case (Some tr)
    obtain t r where tr: "tr = (t, r)" by (cases tr)
    have "collect_step U q d acc = acc @ [(doc_id d, t, r)]"
      using Some tr by (simp add: collect_step_def)
    then show ?thesis using Some tr Cons.IH[of "acc @ [(doc_id d, t, r)]"]
      by (simp add: matching_docs_def)
  qed
qed

lemma fold_emit_step:
  "fold emit_step cs results =
     results @ map (\<lambda>(i, t, r). \<lparr>source_id = i, text_str = t, section_ref = r\<rparr>) cs"
proof (induction cs arbitrary: results)
  case Nil
  then show ?case by simp
next
  case (Cons c cs)
  obtain i t r where c: "c = (i, t, r)" by (cases c)
  show ?case using Cons.IH[of "emit_step c results"] by (simp add: c emit_step_def)
qed

lemma query_step_eq:
  "query_step U docs m q results =
     results @ (if matching_docs U q docs = [] then [sentinel]
                else map (section_of U q) (py_prefix m (matching_docs U q docs)))"
proof -
  define cands where "cands = map (\<lambda>d. (doc_id d, fst (the (best_snippet_for_query_in_doc U q d 700)),
                      snd (the (best_snippet_for_query_in_doc U q d 700)))) (matching_docs U q docs)"
  have c: "fold (collect_step U q) docs [] = cands"
    by (simp add: fold_collect_step cands_def)
  have e: "cands = [] \<longleftrightarrow> matching_docs U q docs = []" by (simp add: cands_def)
  have m: "map (\<lambda>(i, t, r). \<lparr>source_id = i, text_str = t, section_ref = r\<rparr>) (py_prefix m cands) =
           map (section_of U q) (py_prefix m (matching_docs U q docs))"
    by (simp add: cands_def py_prefix_map section_of_def split_beta)
  show ?thesis
    by (simp add: query_step_def c e fold_emit_step m Let_def)
qed

lemma batch_of_eq:
  "batch_of U docs m q =
     (if matching_docs U q docs = [] then [sentinel]
      else map (section_of U q) (py_prefix m (matching_docs U q docs)))"
  by (simp add: batch_of_def query_step_eq)

lemma fold_query_step:
  "fold (query_step U docs m) qs results = results @ concat (map (batch_of U docs m) qs)"
proof (induction qs arbitrary: results)
  case Nil
  then show ?case by simp
next
  case (Cons q qs)
  have "query_step U docs m q results = results @ batch_of U docs m q"
    by (simp add: query_step_eq[of U docs m q results] batch_of_eq)
  then show ?case using Cons.IH[of "results @ batch_of U docs m q"] by simp
qed

lemma retrieve_concat:
  "retrieved_sections (retrieve U inp m) =
     concat (map (batch_of U (criteria_documents inp) m) (criteria_queries inp))"
  by (simp add: retrieve_def fold_query_step)

lemma length_concat_const:
  "(\<forall>x\<in>set xs. length (f x) = k) \<Longrightarrow> length (concat (map f xs)) = length xs * k"
  by (induction xs) simp_all

lemmas retrieve_eval =
  retrieve_def query_step_def collect_step_def emit_step_def sentinel_def no_match_text_def
  batch_of_def matching_docs_def

text \<open>
  C1, as the code has it. For a valid input (a query list and a document list that are
  not empty) and a limit of at least 1, the output is the batches of the queries in query
  order. A query that matches in no document gives the sentinel alone; otherwise its
  batch holds the first documents in which it matches, in document order, as many as the
  limit allows and as there are: its length is the smaller of the limit and the number
  of matching documents. When every query matches in every document the output has the
  number of queries times the smaller of the limit and the number of documents.
\<close>

theorem retrieve_batches:
  assumes "1 \<le> m" and "criteria_queries inp \<noteq> []" and "criteria_documents inp \<noteq> []"
  shows "retrieved_sections (retrieve U inp m) =
           concat (map (batch_of U (criteria_documents inp) m) (criteria_queries inp)) \<and>
         (\<forall>q\<in>set (criteria_queries inp).
            (matching_docs U q (criteria_documents inp) = [] \<longrightarrow>
               batch_of U (criteria_documents inp) m q = [sentinel]) \<and>
            (matching_docs U q (criteria_documents inp) \<noteq> [] \<longrightarrow>
               length (batch_of U (criteria_documents inp) m q) =
                 min (nat m) (length (matching_docs U q (criteria_documents inp))) \<and>
               map source_id (batch_of U (criteria_documents inp) m q) =
                 map doc_id (take (nat m) (matching_docs U q (criteria_documents inp))))) \<and>
         ((\<forall>q\<in>set (criteria_queries inp). \<forall>d\<in>set (criteria_documents inp).
             best_snippet_for_query_in_doc U q d 700 \<noteq> None) \<longrightarrow>
          length (retrieved_sections (retrieve U inp m)) =
            length (criteria_queries inp) * min (nat m) (length (criteria_documents inp)))"
proof -
  define docs where "docs = criteria_documents inp"
  define qs where "qs = criteria_queries inp"
  have dne: "docs \<noteq> []" using assms(3) docs_def by simp
  have pp: "py_prefix m xs = take (nat m) xs" for xs :: "CriteriaDocument list"
    using assms(1) by (simp add: py_prefix_def)
  have a: "retrieved_sections (retrieve U inp m) = concat (map (batch_of U docs m) qs)"
    by (simp add: retrieve_concat docs_def qs_def)
  have b: "\<forall>q\<in>set qs.
            (matching_docs U q docs = [] \<longrightarrow> batch_of U docs m q = [sentinel]) \<and>
            (matching_docs U q docs \<noteq> [] \<longrightarrow>
               length (batch_of U docs m q) = min (nat m) (length (matching_docs U q docs)) \<and>
               map source_id (batch_of U docs m q) = map doc_id (take (nat m) (matching_docs U q docs)))"
    by (simp add: batch_of_eq pp section_of_def comp_def min.commute)
  have c: "(\<forall>q\<in>set qs. \<forall>d\<in>set docs. best_snippet_for_query_in_doc U q d 700 \<noteq> None) \<longrightarrow>
          length (retrieved_sections (retrieve U inp m)) = length qs * min (nat m) (length docs)"
  proof
    assume h: "\<forall>q\<in>set qs. \<forall>d\<in>set docs. best_snippet_for_query_in_doc U q d 700 \<noteq> None"
    have md: "matching_docs U q docs = docs" if "q \<in> set qs" for q
      using h that by (simp add: matching_docs_def)
    have "\<forall>q\<in>set qs. length (batch_of U docs m q) = min (nat m) (length docs)"
      using md dne by (simp add: batch_of_eq pp min.commute)
    then have "length (concat (map (batch_of U docs m) qs)) = length qs * min (nat m) (length docs)"
      by (rule length_concat_const)
    then show "length (retrieved_sections (retrieve U inp m)) = length qs * min (nat m) (length docs)"
      using a by simp
  qed
  show ?thesis using a b c unfolding docs_def qs_def by (intro conjI)
qed

theorem retrieve_batches_witness:
  "(1::int) \<le> 3 \<and>
   criteria_queries \<lparr>criteria_queries = [[97, 98]], criteria_documents = [\<lparr>doc_id = [68, 49], content = [97, 98]\<rparr>, \<lparr>doc_id = [68, 50], content = [97, 98, 32, 99, 100]\<rparr>]\<rparr> \<noteq> [] \<and>
   criteria_documents \<lparr>criteria_queries = [[97, 98]], criteria_documents = [\<lparr>doc_id = [68, 49], content = [97, 98]\<rparr>, \<lparr>doc_id = [68, 50], content = [97, 98, 32, 99, 100]\<rparr>]\<rparr> \<noteq> [] \<and>
   best_snippet_for_query_in_doc basic_tables [97, 98] \<lparr>doc_id = [68, 49], content = [97, 98]\<rparr> 700 \<noteq> None \<and>
   best_snippet_for_query_in_doc basic_tables [97, 98] \<lparr>doc_id = [68, 50], content = [97, 98, 32, 99, 100]\<rparr> 700 \<noteq> None \<and>
   retrieved_sections
     (retrieve basic_tables \<lparr>criteria_queries = [[97, 98]], criteria_documents = [\<lparr>doc_id = [68, 49], content = [97, 98]\<rparr>, \<lparr>doc_id = [68, 50], content = [97, 98, 32, 99, 100]\<rparr>]\<rparr> 3) =
     [\<lparr>source_id = [68, 49], text_str = [97, 98], section_ref = None\<rparr>,
      \<lparr>source_id = [68, 50], text_str = [97, 98, 32, 99, 100], section_ref = None\<rparr>] \<and>
   length (retrieved_sections
     (retrieve basic_tables \<lparr>criteria_queries = [[97, 98]], criteria_documents = [\<lparr>doc_id = [68, 49], content = [97, 98]\<rparr>, \<lparr>doc_id = [68, 50], content = [97, 98, 32, 99, 100]\<rparr>]\<rparr> 3)) =
     length [[97, 98 :: nat]] * min (nat 3) (length [\<lparr>doc_id = [68, 49], content = [97, 98]\<rparr>, \<lparr>doc_id = [68, 50], content = [97, 98, 32, 99, 100]\<rparr>]) \<and>
   retrieved_sections
     (retrieve basic_tables
        \<lparr>criteria_queries = [[97, 98], [122, 122]], criteria_documents = [\<lparr>doc_id = [68, 49], content = [97, 98]\<rparr>, \<lparr>doc_id = [68, 50], content = [97, 98, 32, 99, 100]\<rparr>]\<rparr> 1) =
     [\<lparr>source_id = [68, 49], text_str = [97, 98], section_ref = None\<rparr>, sentinel] \<and>
   matching_docs basic_tables [97, 98] [\<lparr>doc_id = [68, 49], content = [97, 98]\<rparr>, \<lparr>doc_id = [68, 50], content = [97, 98, 32, 99, 100]\<rparr>] = [\<lparr>doc_id = [68, 49], content = [97, 98]\<rparr>, \<lparr>doc_id = [68, 50], content = [97, 98, 32, 99, 100]\<rparr>] \<and>
   matching_docs basic_tables [122, 122] [\<lparr>doc_id = [68, 49], content = [97, 98]\<rparr>, \<lparr>doc_id = [68, 50], content = [97, 98, 32, 99, 100]\<rparr>] = []"
proof -
  define inp where "inp = \<lparr>criteria_queries = [[97, 98]], criteria_documents = [\<lparr>doc_id = [68, 49], content = [97, 98]\<rparr>, \<lparr>doc_id = [68, 50], content = [97, 98, 32, 99, 100]\<rparr>]\<rparr>"
  define inp2 where "inp2 = \<lparr>criteria_queries = [[97, 98], [122, 122]], criteria_documents = [\<lparr>doc_id = [68, 49], content = [97, 98]\<rparr>, \<lparr>doc_id = [68, 50], content = [97, 98, 32, 99, 100]\<rparr>]\<rparr>"
  have h: "(1::int) \<le> 3" by simp
  have hq: "criteria_queries inp \<noteq> []" and hd: "criteria_documents inp \<noteq> []"
    by (simp_all add: inp_def)
  have b1: "best_snippet_for_query_in_doc basic_tables [97, 98] \<lparr>doc_id = [68, 49], content = [97, 98]\<rparr> 700 =
              Some ([97, 98], None)"
    by (simp add: retriever_eval)
  have b2: "best_snippet_for_query_in_doc basic_tables [97, 98] \<lparr>doc_id = [68, 50], content = [97, 98, 32, 99, 100]\<rparr> 700 =
              Some ([97, 98, 32, 99, 100], None)"
    by (simp add: retriever_eval)
  have all: "\<forall>q\<in>set (criteria_queries inp). \<forall>d\<in>set (criteria_documents inp).
             best_snippet_for_query_in_doc basic_tables q d 700 \<noteq> None"
    using b1 b2 by (simp add: inp_def)
  note T = retrieve_batches[OF h hq hd, of basic_tables]
  have "(\<forall>q\<in>set (criteria_queries inp). \<forall>d\<in>set (criteria_documents inp).
             best_snippet_for_query_in_doc basic_tables q d 700 \<noteq> None) \<longrightarrow>
          length (retrieved_sections (retrieve basic_tables inp 3)) =
            length (criteria_queries inp) * min (nat 3) (length (criteria_documents inp))"
    using T by (elim conjE)
  then have len: "length (retrieved_sections (retrieve basic_tables inp 3)) =
            length (criteria_queries inp) * min (nat 3) (length (criteria_documents inp))"
    using all by (rule mp)
  have r: "retrieved_sections (retrieve basic_tables inp 3) =
     [\<lparr>source_id = [68, 49], text_str = [97, 98], section_ref = None\<rparr>,
      \<lparr>source_id = [68, 50], text_str = [97, 98, 32, 99, 100], section_ref = None\<rparr>]"
    by (simp add: inp_def retrieve_concat batch_of_eq matching_docs_def b1 b2 py_prefix_def
        section_of_def)
  have r2: "retrieved_sections (retrieve basic_tables inp2 1) =
     [\<lparr>source_id = [68, 49], text_str = [97, 98], section_ref = None\<rparr>, sentinel]"
    by (simp add: inp2_def retrieve_eval retriever_eval)
  have m: "matching_docs basic_tables [97, 98] [\<lparr>doc_id = [68, 49], content = [97, 98]\<rparr>, \<lparr>doc_id = [68, 50], content = [97, 98, 32, 99, 100]\<rparr>] = [\<lparr>doc_id = [68, 49], content = [97, 98]\<rparr>, \<lparr>doc_id = [68, 50], content = [97, 98, 32, 99, 100]\<rparr>]"
    using b1 b2 by (simp add: matching_docs_def)
  have n: "matching_docs basic_tables [122, 122] [\<lparr>doc_id = [68, 49], content = [97, 98]\<rparr>, \<lparr>doc_id = [68, 50], content = [97, 98, 32, 99, 100]\<rparr>] = []"
    by (simp add: retrieve_eval retriever_eval)
  have l: "length (retrieved_sections (retrieve basic_tables inp 3)) =
     length [[97, 98 :: nat]] * min (nat 3) (length [\<lparr>doc_id = [68, 49], content = [97, 98]\<rparr>, \<lparr>doc_id = [68, 50], content = [97, 98, 32, 99, 100]\<rparr>])"
    using len by (simp add: inp_def)
  show ?thesis using h b1 b2 r r2 m n l unfolding inp_def inp2_def by simp
qed

text \<open>
  C1, as stated, fails: one valid input with one query and one document in which the
  query matches, and the limit 2. Every query matches in every document, yet the output
  has one record, not two.
\<close>

theorem retrieve_batches_counterexample:
  "new_RetrieverInput [[97, 98]] [([68], [97, 98])] =
     Inr \<lparr>criteria_queries = [[97, 98]], criteria_documents = [\<lparr>doc_id = [68], content = [97, 98]\<rparr>]\<rparr> \<and>
   best_snippet_for_query_in_doc basic_tables [97, 98] \<lparr>doc_id = [68], content = [97, 98]\<rparr> 700 \<noteq> None \<and>
   retrieved_sections
     (retrieve basic_tables
        \<lparr>criteria_queries = [[97, 98]], criteria_documents = [\<lparr>doc_id = [68], content = [97, 98]\<rparr>]\<rparr> 2) =
     [\<lparr>source_id = [68], text_str = [97, 98], section_ref = None\<rparr>] \<and>
   length (retrieved_sections
     (retrieve basic_tables
        \<lparr>criteria_queries = [[97, 98]], criteria_documents = [\<lparr>doc_id = [68], content = [97, 98]\<rparr>]\<rparr> 2)) \<noteq>
     length [[97, 98 :: nat]] * 2"
  by (simp add: retrieve_eval retriever_eval new_RetrieverInput_def non_empty_queries_def
      non_empty_docs_def new_CriteriaDocument_def non_empty_def)

section \<open>Queries without a match\<close>




section \<open>Origin and text of the records\<close>

lemma retrieved_section_origin:
  assumes "r \<in> set (retrieved_sections (retrieve U inp m))"
  shows "r = sentinel \<or>
         (\<exists>q\<in>set (criteria_queries inp). \<exists>d\<in>set (criteria_documents inp). \<exists>t ref.
            best_snippet_for_query_in_doc U q d 700 = Some (t, ref) \<and>
            r = \<lparr>source_id = doc_id d, text_str = t, section_ref = ref\<rparr>)"
proof -
  obtain q where q: "q \<in> set (criteria_queries inp)"
    "r \<in> set (batch_of U (criteria_documents inp) m q)"
    using assms by (auto simp: retrieve_concat)
  show ?thesis
  proof (cases "matching_docs U q (criteria_documents inp) = []")
    case True
    then show ?thesis using q(2) by (simp add: batch_of_eq)
  next
    case False
    then obtain d where d: "d \<in> set (py_prefix m (matching_docs U q (criteria_documents inp)))"
      "r = section_of U q d" using q(2) by (auto simp: batch_of_eq)
    have "set (py_prefix m (matching_docs U q (criteria_documents inp))) \<subseteq>
          set (matching_docs U q (criteria_documents inp))"
      by (simp add: py_prefix_def set_take_subset)
    then have dm: "d \<in> set (matching_docs U q (criteria_documents inp))" using d(1) by blast
    then have din: "d \<in> set (criteria_documents inp)"
      and ne: "best_snippet_for_query_in_doc U q d 700 \<noteq> None"
      by (simp_all add: matching_docs_def)
    obtain t ref where tr: "best_snippet_for_query_in_doc U q d 700 = Some (t, ref)"
      using ne by auto
    have "r = \<lparr>source_id = doc_id d, text_str = t, section_ref = ref\<rparr>"
      using d(2) tr by (simp add: section_of_def)
    then show ?thesis using q(1) din tr by blast
  qed
qed

lemma rstrip_length_le: "length (rstrip s) \<le> length s"
  by (simp add: sublist_length_le sublist_rstrip)

lemma rstrip_nonempty: "s \<noteq> [] \<Longrightarrow> \<not> isspace (hd s) \<Longrightarrow> rstrip s \<noteq> []"
proof
  assume a: "s \<noteq> []" "\<not> isspace (hd s)" "rstrip s = []"
  obtain ws where ws: "s = rstrip s @ ws" "\<forall>c\<in>set ws. isspace c"
    using rstrip_append_decomp by blast
  then have "s = ws" using a(3) by simp
  then show False using a(1,2) ws(2) by (metis hd_in_set)
qed

lemma rstrip_shorter: "s \<noteq> [] \<Longrightarrow> isspace (last s) \<Longrightarrow> length (rstrip s) < length s"
proof -
  assume a: "s \<noteq> []" "isspace (last s)"
  obtain ws where ws: "s = rstrip s @ ws" "\<forall>c\<in>set ws. isspace c"
    using rstrip_append_decomp by blast
  have "ws \<noteq> []"
  proof
    assume "ws = []"
    then have "rstrip s = s" using ws(1) by simp
    then show False using rstrip_last[of s] a by simp
  qed
  then have "length (rstrip s) < length (rstrip s @ ws)" by simp
  then show ?thesis using ws(1) by simp
qed

lemma truncate_snippet_short:
  "strip seg = seg \<Longrightarrow> length seg \<le> n \<Longrightarrow> truncate_snippet (int n) seg = seg"
  by (simp add: truncate_snippet_def)

lemma truncate_snippet_long:
  assumes st: "strip seg = seg" and n: "0 < n" "n < length seg"
    and m: "m = int n" and n1: "n1 = n + 1" and n0: "n0 = n - 1"
  shows "truncate_snippet m seg = rstrip (take n seg) @ [8230] \<and>
         last (truncate_snippet m seg) = 8230 \<and>
         2 \<le> length (truncate_snippet m seg) \<and>
         length (truncate_snippet m seg) \<le> n1 \<and>
         (length (truncate_snippet m seg) = n1 \<longleftrightarrow> \<not> isspace (seg ! n0))"
proof -
  have ne: "seg \<noteq> []" using n by auto
  have eq: "truncate_snippet m seg = rstrip (take n seg) @ [8230]"
    using st n m by (simp add: truncate_snippet_def py_prefix_def)
  have hd: "\<not> isspace (hd seg)" using strip_hd[of seg] st ne by simp
  have tne: "take n seg \<noteq> []" using n ne by simp
  have "hd (take n seg) = hd seg" using n by (simp add: hd_take)
  then have rne: "rstrip (take n seg) \<noteq> []" using rstrip_nonempty[OF tne] hd by simp
  then have two: "2 \<le> length (rstrip (take n seg) @ [8230])"
    by (cases "rstrip (take n seg)") simp_all
  have le: "length (rstrip (take n seg)) \<le> n"
    using rstrip_length_le[of "take n seg"] n by simp
  have "last (take n seg) = take n seg ! (length (take n seg) - 1)"
    using tne by (rule last_conv_nth)
  then have lt: "last (take n seg) = seg ! (n - 1)"
    using n by (simp add: min_def)
  have iff: "length (rstrip (take n seg)) = n \<longleftrightarrow> \<not> isspace (seg ! (n - 1))"
  proof
    assume "length (rstrip (take n seg)) = n"
    then have "\<not> length (rstrip (take n seg)) < length (take n seg)" using n by simp
    then show "\<not> isspace (seg ! (n - 1))" using rstrip_shorter[OF tne] lt by auto
  next
    assume "\<not> isspace (seg ! (n - 1))"
    then have "rstrip (take n seg) = take n seg" using rstrip_id[OF tne] lt by simp
    then show "length (rstrip (take n seg)) = n" using n by simp
  qed
  have c2: "last (truncate_snippet m seg) = 8230" by (simp add: eq)
  have c3: "2 \<le> length (truncate_snippet m seg)" using two by (simp add: eq)
  have c4: "length (truncate_snippet m seg) \<le> n1" using le by (simp add: eq n1)
  have c5: "length (truncate_snippet m seg) = n1 \<longleftrightarrow> \<not> isspace (seg ! n0)"
    using iff by (simp add: eq n1 n0)
  show ?thesis using eq c2 c3 c4 c5 by (intro conjI)
qed

lemma truncate_snippet_700:
  assumes "strip seg = seg" "700 < length seg"
  shows "truncate_snippet 700 seg = rstrip (take 700 seg) @ [8230] \<and>
         last (truncate_snippet 700 seg) = 8230 \<and>
         2 \<le> length (truncate_snippet 700 seg) \<and>
         length (truncate_snippet 700 seg) \<le> 701 \<and>
         (length (truncate_snippet 700 seg) = 701 \<longleftrightarrow> \<not> isspace (seg ! 699))"
  by (rule truncate_snippet_long[OF assms(1) _ assms(2)]) simp_all

lemma best_snippet_Some_ref:
  assumes "best_snippet_for_query_in_doc U q d m = Some (t, r)"
  shows "\<exists>raw bp. chosen_segment q d = Some raw \<and> raw \<noteq> [] \<and> strip raw = raw \<and>
           t = truncate_snippet m raw \<and>
           bp = fst (scan_paragraphs (keywords_from_query q 2) (content d)) \<and>
           (bp = None \<or> bp = Some raw) \<and>
           r = lookup_section_ref U (content d) bp raw"
proof -
  obtain bp s1 where p: "scan_paragraphs (keywords_from_query q 2) (content d) = (bp, s1)"
    by (cases "scan_paragraphs (keywords_from_query q 2) (content d)")
  obtain bs s2 where s: "scan_sentences (keywords_from_query q 2) (content d) s1 = (bs, s2)"
    by (cases "scan_sentences (keywords_from_query q 2) (content d) s1")
  note A = best_snippet_anatomy[OF refl p s, of U m]
  have "0 \<le> s2" using scans_anatomy[OF p s] by simp
  then have pos: "0 < s2" using A assms by (cases "s2 = 0") auto
  then obtain raw where raw: "raw_snippet_of bp bs = Some raw" "raw \<noteq> []" "strip raw = raw"
    "best_snippet_for_query_in_doc U q d m =
              Some (truncate_snippet m raw, lookup_section_ref U (content d) bp raw)"
    using A by blast
  have c: "chosen_segment q d = Some raw" using p s pos raw(1) by (simp add: chosen_segment_def Let_def)
  have b: "bp = None \<or> bp = Some raw" using raw(1) by (cases bp) (simp_all add: raw_snippet_of_def)
  have "t = truncate_snippet m raw" "r = lookup_section_ref U (content d) bp raw"
    using raw(4) assms by simp_all
  then show ?thesis using c raw(2,3) b p by auto
qed

lemma lookup_section_ref_Some:
  assumes "lookup_section_ref U c bp raw = Some x" "bp = None \<or> bp = Some raw"
  shows "extract_section_ref U raw = Some x \<or>
         (extract_section_ref U raw = None \<and> bp = Some raw \<and>
          (\<exists>idx. str_index c raw = Inr idx \<and> extract_section_ref U (citation_window c idx raw) = Some x))"
proof (cases "extract_section_ref U raw")
  case (Some y)
  then show ?thesis using assms by (simp add: lookup_section_ref_def Let_def)
next
  case None
  show ?thesis
  proof (cases bp)
    case bn: None
    then show ?thesis using assms None by (simp add: lookup_section_ref_def Let_def)
  next
    case (Some p)
    then have pr: "p = raw" using assms(2) by simp
    show ?thesis using assms(1) None Some pr
      by (cases "str_index c raw") (simp_all add: lookup_section_ref_def Let_def)
  qed
qed

lemma truncate_snippet_nonempty:
  assumes "raw \<noteq> []" "strip raw = raw"
  shows "truncate_snippet m raw \<noteq> []"
  using assms by (simp add: truncate_snippet_def Let_def)

text \<open>
  C9. Every record of the output has as source the id of a document of the input or
  \<open>N/A\<close>, and a text that is not empty. When its reference is set, the record is the
  candidate of one of the queries in one of the documents: its source is that
  document's id, its text is cut from the segment chosen for that query in that document,
  and its reference is a match of the citation pattern in that very segment or, when the
  segment itself has no match, in the window around the position that \<open>index\<close> finds
  for it in that document.
\<close>

theorem retrieved_section_invariants:
  assumes "r \<in> set (retrieved_sections (retrieve U inp m))"
  shows "(source_id r = [78, 47, 65] \<or> source_id r \<in> doc_id ` set (criteria_documents inp)) \<and>
         text_str r \<noteq> [] \<and>
         (\<forall>x. section_ref r = Some x \<longrightarrow>
            (\<exists>q\<in>set (criteria_queries inp). \<exists>d\<in>set (criteria_documents inp). \<exists>seg.
               best_snippet_for_query_in_doc U q d 700 = Some (text_str r, section_ref r) \<and>
               source_id r = doc_id d \<and>
               chosen_segment q d = Some seg \<and>
               text_str r = truncate_snippet 700 seg \<and>
               (extract_section_ref U seg = Some x \<or>
                (extract_section_ref U seg = None \<and>
                 (\<exists>idx. str_index (content d) seg = Inr idx \<and>
                    extract_section_ref U (citation_window (content d) idx seg) = Some x)))))"
proof (cases "r = sentinel")
  case True
  then show ?thesis by (simp add: sentinel_def no_match_text_def)
next
  case False
  then obtain q d t ref where o: "q \<in> set (criteria_queries inp)" "d \<in> set (criteria_documents inp)"
    "best_snippet_for_query_in_doc U q d 700 = Some (t, ref)"
    "r = \<lparr>source_id = doc_id d, text_str = t, section_ref = ref\<rparr>"
    using retrieved_section_origin[OF assms] by blast
  obtain raw bp where raw: "chosen_segment q d = Some raw" "raw \<noteq> []" "strip raw = raw"
    "t = truncate_snippet 700 raw" "bp = None \<or> bp = Some raw"
    "ref = lookup_section_ref U (content d) bp raw"
    using best_snippet_Some_ref[OF o(3)] by blast
  have sid: "source_id r = doc_id d" using o(4) by simp
  have tx: "text_str r = truncate_snippet 700 raw" using o(4) raw(4) by simp
  have bst: "best_snippet_for_query_in_doc U q d 700 = Some (text_str r, section_ref r)"
    using o(3,4) by simp
  have a: "source_id r \<in> doc_id ` set (criteria_documents inp)" using o(2) sid by simp
  have b: "text_str r \<noteq> []" using tx raw(2,3) truncate_snippet_nonempty by simp
  have c: "\<forall>x. section_ref r = Some x \<longrightarrow>
            (\<exists>q\<in>set (criteria_queries inp). \<exists>d\<in>set (criteria_documents inp). \<exists>seg.
               best_snippet_for_query_in_doc U q d 700 = Some (text_str r, section_ref r) \<and>
               source_id r = doc_id d \<and>
               chosen_segment q d = Some seg \<and>
               text_str r = truncate_snippet 700 seg \<and>
               (extract_section_ref U seg = Some x \<or>
                (extract_section_ref U seg = None \<and>
                 (\<exists>idx. str_index (content d) seg = Inr idx \<and>
                    extract_section_ref U (citation_window (content d) idx seg) = Some x))))"
  proof (intro allI impI)
    fix x
    assume "section_ref r = Some x"
    then have "lookup_section_ref U (content d) bp raw = Some x" using o(4) raw(6) by simp
    from lookup_section_ref_Some[OF this raw(5)]
    have m: "extract_section_ref U raw = Some x \<or>
                (extract_section_ref U raw = None \<and>
                 (\<exists>idx. str_index (content d) raw = Inr idx \<and>
                    extract_section_ref U (citation_window (content d) idx raw) = Some x))" by blast
    have "best_snippet_for_query_in_doc U q d 700 = Some (text_str r, section_ref r) \<and>
               source_id r = doc_id d \<and>
               chosen_segment q d = Some raw \<and>
               text_str r = truncate_snippet 700 raw \<and>
               (extract_section_ref U raw = Some x \<or>
                (extract_section_ref U raw = None \<and>
                 (\<exists>idx. str_index (content d) raw = Inr idx \<and>
                    extract_section_ref U (citation_window (content d) idx raw) = Some x)))"
      using bst sid raw(1) tx m by (intro conjI)
    then show "\<exists>q\<in>set (criteria_queries inp). \<exists>d\<in>set (criteria_documents inp). \<exists>seg.
               best_snippet_for_query_in_doc U q d 700 = Some (text_str r, section_ref r) \<and>
               source_id r = doc_id d \<and>
               chosen_segment q d = Some seg \<and>
               text_str r = truncate_snippet 700 seg \<and>
               (extract_section_ref U seg = Some x \<or>
                (extract_section_ref U seg = None \<and>
                 (\<exists>idx. str_index (content d) seg = Inr idx \<and>
                    extract_section_ref U (citation_window (content d) idx seg) = Some x)))"
      using o(1,2) by blast
  qed
  show ?thesis using a b c by (intro conjI disjI2)
qed

theorem retrieved_section_invariants_witness:
  "retrieved_sections
     (retrieve basic_tables
        \<lparr>criteria_queries = [[1490, 1497, 1500, 32, 1502, 1497, 1504, 1497, 1502, 1500, 1497]],
         criteria_documents =
           [\<lparr>doc_id = [68, 49],
             content = [1505, 1506, 1497, 1507, 32, 51, 40, 1488, 41, 32, 1490, 1497, 1500, 32, 1502, 1497, 1504, 1497, 1502, 1500, 1497, 32, 49, 56]\<rparr>]\<rparr> 1) =
     [\<lparr>source_id = [68, 49],
       text_str = [1505, 1506, 1497, 1507, 32, 51, 40, 1488, 41, 32, 1490, 1497, 1500, 32, 1502, 1497, 1504, 1497, 1502, 1500, 1497, 32, 49, 56],
       section_ref = Some [1505, 1506, 1497, 1507, 32, 51, 40, 1488, 41]\<rparr>] \<and>
   best_snippet_for_query_in_doc basic_tables [1490, 1497, 1500, 32, 1502, 1497, 1504, 1497, 1502, 1500, 1497]
     \<lparr>doc_id = [68, 49],
      content = [1505, 1506, 1497, 1507, 32, 51, 40, 1488, 41, 32, 1490, 1497, 1500, 32, 1502, 1497, 1504, 1497, 1502, 1500, 1497, 32, 49, 56]\<rparr> 700 =
     Some ([1505, 1506, 1497, 1507, 32, 51, 40, 1488, 41, 32, 1490, 1497, 1500, 32, 1502, 1497, 1504, 1497, 1502, 1500, 1497, 32, 49, 56],
           Some [1505, 1506, 1497, 1507, 32, 51, 40, 1488, 41]) \<and>
   chosen_segment [1490, 1497, 1500, 32, 1502, 1497, 1504, 1497, 1502, 1500, 1497]
     \<lparr>doc_id = [68, 49],
      content = [1505, 1506, 1497, 1507, 32, 51, 40, 1488, 41, 32, 1490, 1497, 1500, 32, 1502, 1497, 1504, 1497, 1502, 1500, 1497, 32, 49, 56]\<rparr> =
     Some [1505, 1506, 1497, 1507, 32, 51, 40, 1488, 41, 32, 1490, 1497, 1500, 32, 1502, 1497, 1504, 1497, 1502, 1500, 1497, 32, 49, 56] \<and>
   extract_section_ref basic_tables
     [1505, 1506, 1497, 1507, 32, 51, 40, 1488, 41, 32, 1490, 1497, 1500, 32, 1502, 1497, 1504, 1497, 1502, 1500, 1497, 32, 49, 56] =
     Some [1505, 1506, 1497, 1507, 32, 51, 40, 1488, 41] \<and>
   [68, 49] \<in> doc_id ` set [\<lparr>doc_id = [68, 49],
             content = [1505, 1506, 1497, 1507, 32, 51, 40, 1488, 41, 32, 1490, 1497, 1500, 32, 1502, 1497, 1504, 1497, 1502, 1500, 1497, 32, 49, 56]\<rparr>]"
proof -
  define d where "d = \<lparr>doc_id = [68, 49],
             content = [1505, 1506, 1497, 1507, 32, 51, 40, 1488, 41, 32, 1490, 1497, 1500, 32, 1502, 1497, 1504, 1497, 1502, 1500, 1497, 32, 49, 56]\<rparr>"
  define inp where "inp = \<lparr>criteria_queries = [[1490, 1497, 1500, 32, 1502, 1497, 1504, 1497, 1502, 1500, 1497]],
         criteria_documents = [d]\<rparr>"
  define R where "R = \<lparr>source_id = [68, 49],
       text_str = [1505, 1506, 1497, 1507, 32, 51, 40, 1488, 41, 32, 1490, 1497, 1500, 32, 1502, 1497, 1504, 1497, 1502, 1500, 1497, 32, 49, 56],
       section_ref = Some [1505, 1506, 1497, 1507, 32, 51, 40, 1488, 41]\<rparr>"
  have e: "extract_section_ref basic_tables
     [1505, 1506, 1497, 1507, 32, 51, 40, 1488, 41, 32, 1490, 1497, 1500, 32, 1502, 1497, 1504, 1497, 1502, 1500, 1497, 32, 49, 56] =
     Some [1505, 1506, 1497, 1507, 32, 51, 40, 1488, 41]"
    by (simp add: retriever_eval)
  have b: "best_snippet_for_query_in_doc basic_tables [1490, 1497, 1500, 32, 1502, 1497, 1504, 1497, 1502, 1500, 1497] d 700 =
     Some ([1505, 1506, 1497, 1507, 32, 51, 40, 1488, 41, 32, 1490, 1497, 1500, 32, 1502, 1497, 1504, 1497, 1502, 1500, 1497, 32, 49, 56],
           Some [1505, 1506, 1497, 1507, 32, 51, 40, 1488, 41])"
    by (simp add: d_def retriever_eval)
  have c: "chosen_segment [1490, 1497, 1500, 32, 1502, 1497, 1504, 1497, 1502, 1500, 1497] d =
     Some [1505, 1506, 1497, 1507, 32, 51, 40, 1488, 41, 32, 1490, 1497, 1500, 32, 1502, 1497, 1504, 1497, 1502, 1500, 1497, 32, 49, 56]"
    by (simp add: d_def chosen_segment_def retriever_eval)
  have r: "retrieved_sections (retrieve basic_tables inp 1) = [R]"
    by (simp add: inp_def R_def d_def retrieve_eval retriever_eval)
  then have mem: "R \<in> set (retrieved_sections (retrieve basic_tables inp 1))" by simp
  have "source_id R = [78, 47, 65] \<or> source_id R \<in> doc_id ` set (criteria_documents inp)"
    using retrieved_section_invariants[OF mem] by (rule conjunct1)
  then have "[68, 49] \<in> doc_id ` set (criteria_documents inp)" by (simp add: R_def)
  then show ?thesis using r b c e unfolding inp_def R_def d_def by simp
qed

section \<open>Words without white space\<close>

lemma isspace_not_niqqud: "isspace c \<Longrightarrow> \<not> is_niqqud c"
  by (auto simp: isspace_def is_niqqud_def)

lemma is_blank_isspace: "is_blank c \<Longrightarrow> isspace c"
  by (auto simp: isspace_def is_blank_def)

lemma is_linebreak_isspace: "is_linebreak c \<Longrightarrow> isspace c"
  by (auto simp: isspace_def is_linebreak_def)

lemma token_sep_isspace: "isspace c \<Longrightarrow> is_token_sep c"
  by (simp add: is_token_sep_def)

lemma sublist_filter: "sublist xs ys \<Longrightarrow> sublist (filter P xs) (filter P ys)"
proof -
  assume "sublist xs ys"
  then obtain ps ss where "ys = ps @ xs @ ss" by (auto simp: sublist_def)
  then have "filter P ys = filter P ps @ filter P xs @ filter P ss" by simp
  then show ?thesis by (metis sublist_appendI)
qed

lemma strip_niqqud_spaces: "\<forall>c\<in>set w. isspace c \<Longrightarrow> strip_niqqud w = w"
  by (induction w) (auto simp: isspace_not_niqqud)

text \<open>A word without white space cannot reach across white space.\<close>

lemma sublist_skip_left:
  assumes "\<forall>c\<in>set kw. \<not> isspace c" "kw \<noteq> []" "\<forall>c\<in>set l. isspace c" "sublist kw (l @ m)"
  shows "sublist kw m"
  using assms(3,4)
proof (induction l)
  case Nil
  then show ?case by simp
next
  case (Cons c l)
  have "\<not> prefix kw (c # l @ m)"
  proof
    assume "prefix kw (c # l @ m)"
    then have "hd kw = c" using assms(2) by (cases kw) auto
    then show False using assms(1,2) Cons.prems(1) by (metis hd_in_set list.set_intros(1))
  qed
  then have "sublist kw (l @ m)" using Cons.prems(2) by (simp add: sublist_Cons_right)
  then show ?case using Cons by simp
qed

lemma sublist_skip_right:
  assumes "\<forall>c\<in>set kw. \<not> isspace c" "kw \<noteq> []" "\<forall>c\<in>set r. isspace c" "sublist kw (m @ r)"
  shows "sublist kw m"
proof -
  have "sublist (rev kw) (rev r @ rev m)" using assms(4) by (metis rev_append sublist_rev)
  then have "sublist (rev kw) (rev m)"
    using sublist_skip_left[of "rev kw" "rev r" "rev m"] assms(1,2,3) by simp
  then show ?thesis by simp
qed

lemma sublist_across_spaces:
  assumes kw: "\<forall>c\<in>set kw. \<not> isspace c" "kw \<noteq> []"
    and w: "\<forall>c\<in>set w. isspace c" "w \<noteq> []"
    and s: "sublist kw (a @ w @ b)"
  shows "sublist kw a \<or> sublist kw b"
proof -
  from s have "sublist kw a \<or> sublist kw (w @ b) \<or>
      (\<exists>k1 k2. kw = k1 @ k2 \<and> suffix k1 a \<and> prefix k2 (w @ b))"
    by (simp only: sublist_append)
  then show ?thesis
  proof (elim disjE)
    assume "sublist kw a"
    then show ?thesis by simp
  next
    assume "sublist kw (w @ b)"
    then show ?thesis using sublist_skip_left[OF kw w(1)] by simp
  next
    assume "\<exists>k1 k2. kw = k1 @ k2 \<and> suffix k1 a \<and> prefix k2 (w @ b)"
    then obtain k1 k2 where k: "kw = k1 @ k2" "suffix k1 a" "prefix k2 (w @ b)" by blast
    show ?thesis
    proof (cases k2)
      case Nil
      then show ?thesis using k(1,2) by auto
    next
      case (Cons x xs)
      obtain y ys where y: "w = y # ys" using w(2) by (cases w) auto
      have "x = y" using k(3) Cons y by simp
      then have "isspace x" using w(1) y by simp
      moreover have "x \<in> set kw" using k(1) Cons by simp
      ultimately show ?thesis using kw(1) by blast
    qed
  qed
qed

lemma prefix_collapse_blanks:
  "\<forall>c\<in>set kw. \<not> is_blank c \<Longrightarrow> prefix kw (collapse_blanks x) \<longleftrightarrow> prefix kw x"
proof (induction x arbitrary: kw rule: collapse_blanks.induct)
  case 1
  then show ?case by simp
next
  case (2 c cs)
  show ?case
  proof (cases kw)
    case Nil
    then show ?thesis by simp
  next
    case (Cons k ks)
    then have k: "\<not> is_blank k" "\<forall>c\<in>set ks. \<not> is_blank c" using "2.prems" by simp_all
    show ?thesis
    proof (cases "is_blank c")
      case True
      have "k \<noteq> 32" using k(1) by (auto simp: is_blank_def)
      moreover have "k \<noteq> c" using k(1) True by auto
      ultimately show ?thesis using True Cons by simp
    next
      case False
      then show ?thesis using Cons "2.IH"(2)[OF False k(2)] by simp
    qed
  qed
qed

lemma sublist_dropWhile_blank:
  assumes "\<forall>c\<in>set kw. \<not> is_blank c" "kw \<noteq> []"
  shows "sublist kw (dropWhile is_blank cs) \<longleftrightarrow> sublist kw cs"
proof (induction cs)
  case Nil
  then show ?case by simp
next
  case (Cons d ds)
  show ?case
  proof (cases "is_blank d")
    case True
    have "\<not> prefix kw (d # ds)"
    proof
      assume "prefix kw (d # ds)"
      then have "hd kw = d" using assms(2) by (cases kw) auto
      then show False using assms True by (metis hd_in_set)
    qed
    then show ?thesis using True Cons by (simp add: sublist_Cons_right)
  next
    case False
    then show ?thesis by simp
  qed
qed

lemma sublist_collapse_blanks:
  assumes "\<forall>c\<in>set kw. \<not> is_blank c" "kw \<noteq> []"
  shows "sublist kw (collapse_blanks x) \<longleftrightarrow> sublist kw x"
proof (induction x rule: collapse_blanks.induct)
  case 1
  then show ?case by simp
next
  case (2 c cs)
  show ?case
  proof (cases "is_blank c")
    case True
    have n1: "\<not> prefix kw (32 # collapse_blanks (dropWhile is_blank cs))"
    proof
      assume "prefix kw (32 # collapse_blanks (dropWhile is_blank cs))"
      then have "hd kw = 32" using assms(2) by (cases kw) auto
      then have "is_blank (hd kw)" by (simp add: is_blank_def)
      then show False using assms by (metis hd_in_set)
    qed
    have n2: "\<not> prefix kw (c # cs)"
    proof
      assume "prefix kw (c # cs)"
      then have "hd kw = c" using assms(2) by (cases kw) auto
      then show False using assms True by (metis hd_in_set)
    qed
    have "sublist kw (collapse_blanks (c # cs)) \<longleftrightarrow> sublist kw (collapse_blanks (dropWhile is_blank cs))"
      using True n1 by (simp add: sublist_Cons_right)
    also have "\<dots> \<longleftrightarrow> sublist kw (dropWhile is_blank cs)" using "2.IH"(1)[OF True] .
    also have "\<dots> \<longleftrightarrow> sublist kw cs" using sublist_dropWhile_blank[OF assms] .
    also have "\<dots> \<longleftrightarrow> sublist kw (c # cs)" using n2 by (simp add: sublist_Cons_right)
    finally show ?thesis .
  next
    case False
    have "prefix kw (c # collapse_blanks cs) \<longleftrightarrow> prefix kw (c # cs)"
      using prefix_collapse_blanks[OF assms(1), of "c # cs"] False by simp
    then show ?thesis using False "2.IH"(2)[OF False] by (simp add: sublist_Cons_right)
  qed
qed

lemma sublist_strip_iff:
  assumes "\<forall>c\<in>set kw. \<not> isspace c" "kw \<noteq> []"
  shows "sublist kw (strip y) \<longleftrightarrow> sublist kw y"
proof
  assume "sublist kw (strip y)"
  then show "sublist kw y" using sublist_strip sublist_order.order_trans by blast
next
  assume a: "sublist kw y"
  obtain l r where lr: "y = l @ strip y @ r" "\<forall>c\<in>set l. isspace c" "\<forall>c\<in>set r. isspace c"
    using strip_decomp by blast
  have "sublist kw (l @ strip y @ r)" using a lr(1) by simp
  then have "sublist kw (strip y @ r)" using sublist_skip_left[OF assms lr(2)] by blast
  then show "sublist kw (strip y)" using sublist_skip_right[OF assms lr(3)] by blast
qed

text \<open>
  A word without white space occurs in the normalized text exactly when it occurs in the
  text without its vowel points.
\<close>

lemma sublist_normalize_hebrew:
  assumes "\<forall>c\<in>set kw. \<not> isspace c" "kw \<noteq> []"
  shows "sublist kw (normalize_hebrew t) \<longleftrightarrow> sublist kw (strip_niqqud t)"
proof -
  have nb: "\<forall>c\<in>set kw. \<not> is_blank c" using assms(1) is_blank_isspace by blast
  show ?thesis
    by (simp add: normalize_hebrew_def Let_def sublist_strip_iff[OF assms]
        sublist_collapse_blanks[OF nb assms(2)])
qed

lemma crlf_run_chars: "\<forall>c\<in>set (take (crlf_run xs) xs). isspace c"
proof (induction xs rule: crlf_run.induct)
  case 1
  then show ?case by simp
next
  case (2 c)
  then show ?case by (simp add: isspace_def)
next
  case (3 c d cs)
  show ?case
  proof (cases "c = 10")
    case True
    then show ?thesis using "3.IH"(1) by (simp add: isspace_def)
  next
    case False
    show ?thesis
    proof (cases "c = 13 \<and> d = 10")
      case True
      then show ?thesis using "3.IH"(2)[OF False] by (simp add: isspace_def)
    next
      case f: False
      then show ?thesis using False by auto
    qed
  qed
qed

lemma PARAGRAPH_SEP_RE_chars: "\<forall>c\<in>set (take (PARAGRAPH_SEP_RE prev xs) xs). isspace c"
proof (cases "2 \<le> length (takeWhile (\<lambda>c. c = 10) xs)")
  case True
  then have "take (PARAGRAPH_SEP_RE prev xs) xs = takeWhile (\<lambda>c. c = 10) xs"
    by (simp add: PARAGRAPH_SEP_RE_def Let_def takeWhile_eq_take[symmetric])
  moreover have "\<forall>c\<in>set (takeWhile (\<lambda>c. c = 10) xs). isspace c"
    by (auto dest!: set_takeWhileD simp: isspace_def)
  ultimately show ?thesis by simp
next
  case False
  then show ?thesis using crlf_run_chars by (simp add: PARAGRAPH_SEP_RE_def Let_def)
qed

text \<open>
  The pieces of a split at white space cover every word without white space: a word that
  occurs in the text (without vowel points) occurs in one of the pieces.
\<close>

lemma re_split_covers:
  assumes kw: "\<forall>c\<in>set kw. \<not> isspace c" "kw \<noteq> []"
  shows "(\<forall>prev xs. \<forall>c\<in>set (take (m prev xs) xs). isspace c) \<Longrightarrow>
         sublist kw (strip_niqqud (rev acc @ xs)) \<Longrightarrow>
         \<exists>p\<in>set (re_split m prev acc xs). sublist kw (strip_niqqud p)"
proof (induction m prev acc xs rule: re_split.induct)
  case (1 m prev acc)
  then show ?case by simp
next
  case (2 m prev acc c cs)
  show ?case
  proof (cases "m prev (c # cs) = 0")
    case True
    have "sublist kw (strip_niqqud (rev (c # acc) @ cs))" using "2.prems"(2) by simp
    then have "\<exists>p\<in>set (re_split m (Some c) (c # acc) cs). sublist kw (strip_niqqud p)"
      using "2.IH"(1)[OF refl True "2.prems"(1)] by blast
    then show ?thesis using True by simp
  next
    case False
    define n where "n = m prev (c # cs)"
    have n0: "n \<noteq> 0" using False n_def by simp
    define w where "w = take n (c # cs)"
    have wne: "w \<noteq> []" using n0 w_def by (cases n) simp_all
    have wsp: "\<forall>c\<in>set w. isspace c" using "2.prems"(1) w_def n_def by blast
    have "c # cs = w @ drop n (c # cs)" by (simp add: w_def)
    then have "strip_niqqud (rev acc @ c # cs) =
               strip_niqqud (rev acc) @ strip_niqqud w @ strip_niqqud (drop n (c # cs))"
      by (metis filter_append)
    then have "sublist kw (strip_niqqud (rev acc) @ w @ strip_niqqud (drop n (c # cs)))"
      using "2.prems"(2) strip_niqqud_spaces[OF wsp] by simp
    then have "sublist kw (strip_niqqud (rev acc)) \<or> sublist kw (strip_niqqud (drop n (c # cs)))"
      using sublist_across_spaces[OF kw wsp wne] by blast
    then show ?thesis
    proof
      assume "sublist kw (strip_niqqud (rev acc))"
      then show ?thesis using n0 n_def by (simp add: Let_def)
    next
      assume "sublist kw (strip_niqqud (drop n (c # cs)))"
      then have "sublist kw (strip_niqqud (rev [] @ drop n (c # cs)))" by simp
      then have "\<exists>p\<in>set (re_split m (Some (last (take n (c # cs)))) [] (drop n (c # cs))).
                   sublist kw (strip_niqqud p)"
        using "2.IH"(2)[OF n_def n0 "2.prems"(1)] by blast
      then show ?thesis using n0 n_def by (auto simp: Let_def)
    qed
  qed
qed

lemma splitlines_from_covers:
  assumes kw: "\<forall>c\<in>set kw. \<not> isspace c" "kw \<noteq> []"
  shows "sublist kw (strip_niqqud (rev acc @ xs)) \<Longrightarrow>
         \<exists>p\<in>set (splitlines_from acc xs). sublist kw (strip_niqqud p)"
proof (induction acc xs rule: splitlines_from.induct)
  case (1 acc)
  then show ?case using kw(2) by (cases "acc = []") auto
next
  case (2 acc c)
  show ?case
  proof (cases "is_linebreak c")
    case True
    then have sp: "\<forall>x\<in>set [c]. isspace x" using is_linebreak_isspace by simp
    have "sublist kw (strip_niqqud (rev acc) @ [c])"
      using "2.prems" strip_niqqud_spaces[OF sp] by simp
    then have "sublist kw (strip_niqqud (rev acc))"
      using sublist_skip_right[OF kw sp] by blast
    then show ?thesis using True by simp
  next
    case False
    then show ?thesis using "2.prems" by simp
  qed
next
  case (3 acc c d cs)
  have split: "sublist kw (strip_niqqud (rev acc)) \<or> sublist kw (strip_niqqud b)"
    if w: "\<forall>x\<in>set w. isspace x" "w \<noteq> []" and e: "c # d # cs = w @ b" for w b
  proof -
    have "strip_niqqud (rev acc @ c # d # cs) = strip_niqqud (rev acc) @ strip_niqqud w @ strip_niqqud b"
      using e by (metis filter_append)
    then have "sublist kw (strip_niqqud (rev acc) @ w @ strip_niqqud b)"
      using "3.prems" strip_niqqud_spaces[OF w(1)] by simp
    then show ?thesis using sublist_across_spaces[OF kw w] by blast
  qed
  show ?case
  proof (cases "c = 13 \<and> d = 10")
    case True
    have "\<forall>x\<in>set [c, d]. isspace x" using True by (simp add: isspace_def)
    then have "sublist kw (strip_niqqud (rev acc)) \<or> sublist kw (strip_niqqud cs)"
      using split[of "[c, d]" cs] by simp
    then show ?thesis
    proof
      assume "sublist kw (strip_niqqud (rev acc))"
      then show ?thesis using True by simp
    next
      assume "sublist kw (strip_niqqud cs)"
      then have "\<exists>p\<in>set (splitlines_from [] cs). sublist kw (strip_niqqud p)"
        using "3.IH"(1)[OF True] by simp
      then show ?thesis using True by auto
    qed
  next
    case False
    show ?thesis
    proof (cases "is_linebreak c")
      case True
      then have "\<forall>x\<in>set [c]. isspace x" using is_linebreak_isspace by simp
      then have "sublist kw (strip_niqqud (rev acc)) \<or> sublist kw (strip_niqqud (d # cs))"
        using split[of "[c]" "d # cs"] by simp
      then show ?thesis
      proof
        assume "sublist kw (strip_niqqud (rev acc))"
        then show ?thesis using True False by auto
      next
        assume "sublist kw (strip_niqqud (d # cs))"
        then have "\<exists>p\<in>set (splitlines_from [] (d # cs)). sublist kw (strip_niqqud p)"
          using "3.IH"(2)[OF False True] by simp
        then show ?thesis using True False by auto
      qed
    next
      case nb: False
      have "sublist kw (strip_niqqud (rev (c # acc) @ d # cs))" using "3.prems" by simp
      then have "\<exists>p\<in>set (splitlines_from (c # acc) (d # cs)). sublist kw (strip_niqqud p)"
        using "3.IH"(3)[OF False nb] by blast
      then show ?thesis using False nb by auto
    qed
  qed
qed

lemma strip_keeps_word:
  assumes kw: "\<forall>c\<in>set kw. \<not> isspace c" "kw \<noteq> []" and s: "sublist kw (strip_niqqud p)"
  shows "sublist kw (strip_niqqud (strip p)) \<and> strip p \<noteq> []"
proof -
  obtain l r where lr: "p = l @ strip p @ r" "\<forall>c\<in>set l. isspace c" "\<forall>c\<in>set r. isspace c"
    using strip_decomp by blast
  have "strip_niqqud p = strip_niqqud l @ strip_niqqud (strip p) @ strip_niqqud r"
    using lr(1) by (metis filter_append)
  then have "sublist kw (l @ strip_niqqud (strip p) @ r)"
    using s strip_niqqud_spaces[OF lr(2)] strip_niqqud_spaces[OF lr(3)] by simp
  then have "sublist kw (strip_niqqud (strip p) @ r)" using sublist_skip_left[OF kw lr(2)] by blast
  then have a: "sublist kw (strip_niqqud (strip p))" using sublist_skip_right[OF kw lr(3)] by blast
  then have "strip p \<noteq> []" using kw(2) by auto
  then show ?thesis using a by simp
qed

text \<open>
  A word without white space that occurs in the document (without vowel points) occurs in
  a normalized paragraph.
\<close>

lemma paragraphs_cover:
  assumes kw: "\<forall>c\<in>set kw. \<not> isspace c" "kw \<noteq> []" and s: "sublist kw (strip_niqqud c)"
  shows "\<exists>p\<in>set (split_to_paragraphs c). sublist kw (normalize_hebrew p)"
proof -
  have cover: "\<exists>p\<in>set (map strip (filter (\<lambda>p. strip p \<noteq> []) pieces)). sublist kw (normalize_hebrew p)"
    if h: "\<exists>p\<in>set pieces. sublist kw (strip_niqqud p)" for pieces
  proof -
    obtain p where p: "p \<in> set pieces" "sublist kw (strip_niqqud p)" using h by blast
    have "sublist kw (strip_niqqud (strip p))" "strip p \<noteq> []"
      using strip_keeps_word[OF kw p(2)] by simp_all
    then have "sublist kw (normalize_hebrew (strip p))" "strip p \<noteq> []"
      using sublist_normalize_hebrew[OF kw] by simp_all
    then show ?thesis using p(1) by auto
  qed
  have r: "\<exists>p\<in>set (re_split PARAGRAPH_SEP_RE None [] c). sublist kw (strip_niqqud p)"
    using re_split_covers[OF kw, of PARAGRAPH_SEP_RE "[]" c None] PARAGRAPH_SEP_RE_chars s by simp
  have l: "\<exists>p\<in>set (splitlines c). sublist kw (strip_niqqud p)"
    using splitlines_from_covers[OF kw, of "[]" c] s by (simp add: splitlines_def)
  show ?thesis using cover[OF r] cover[OF l] by (simp add: split_to_paragraphs_def Let_def)
qed

lemma sentence_match_gives_paragraph_match:
  assumes kw: "\<forall>c\<in>set kw. \<not> isspace c" "kw \<noteq> []"
    and s: "s \<in> set (split_to_sentences c)" "sublist kw (normalize_hebrew s)"
  shows "\<exists>p\<in>set (split_to_paragraphs c). sublist kw (normalize_hebrew p)"
proof -
  have "sublist kw (strip_niqqud s)" using s(2) sublist_normalize_hebrew[OF kw] by simp
  moreover have "sublist (strip_niqqud s) (strip_niqqud c)"
    using split_to_sentences_unit[OF s(1)] sublist_filter by blast
  ultimately have "sublist kw (strip_niqqud c)" using sublist_order.order_trans by blast
  then show ?thesis using paragraphs_cover[OF kw] by blast
qed

section \<open>The scan of the sentences\<close>

lemma keyword_chars:
  assumes "k \<in> set (keywords_from_query q 2)"
  shows "k \<noteq> [] \<and> (\<forall>c\<in>set k. \<not> isspace c)"
proof -
  have "k \<in> set (extract_keywords_spec q 2)"
    using assms keywords_from_query_spec[of 2 q] by simp
  then have k: "k \<in> set (split_on is_token_sep (normalize_hebrew q))" "2 \<le> length k"
    by (auto simp: extract_keywords_spec_def Let_def first_occurrences_set)
  have "\<forall>c\<in>set k. \<not> is_token_sep c"
    using split_on_unit_free[of is_token_sep "normalize_hebrew q"] k(1) by blast
  then have "\<forall>c\<in>set k. \<not> isspace c" using token_sep_isspace by blast
  moreover have "k \<noteq> []" using k(2) by auto
  ultimately show ?thesis by simp
qed

text \<open>
  The scan of the sentences never selects anything: a keyword has no white space, so a
  keyword that occurs in a normalized sentence occurs in a normalized paragraph, and the
  scan of the paragraphs would not have ended with the score 0.
\<close>

lemma sentence_scan_idle:
  assumes p: "scan_paragraphs (keywords_from_query q 2) c = (bp, 0)"
  shows "scan_sentences (keywords_from_query q 2) c 0 = (None, 0)"
proof -
  define K where "K = keywords_from_query q 2"
  obtain bs s2 where s: "scan_sentences K c 0 = (bs, s2)" by (cases "scan_sentences K c 0")
  have p': "scan_paragraphs K c = (bp, 0)" using p K_def by simp
  note A = scans_anatomy[OF p' s]
  have fp: "fold (scan_step K) (split_to_paragraphs c) (None, 0) = (bp, 0)"
    using p' by (simp add: scan_paragraphs_def)
  have le: "\<forall>j<length (split_to_paragraphs c). segment_score K (split_to_paragraphs c ! j) \<le> 0"
    using scan_fold_init[OF fp] by (rule conjunct1)
  have "\<not> 0 < s2"
  proof
    assume pos: "0 < s2"
    then obtain seg where seg: "seg \<in> set (split_to_sentences c)" "s2 = segment_score K seg"
      using A by blast
    then obtain kw where kw: "kw \<in> set K" "kw \<noteq> []" "sublist kw (normalize_hebrew seg)"
      using pos match_score_pos_iff by blast
    have ws: "\<forall>c\<in>set kw. \<not> isspace c" using keyword_chars kw(1) K_def by blast
    obtain para where para: "para \<in> set (split_to_paragraphs c)" "sublist kw (normalize_hebrew para)"
      using sentence_match_gives_paragraph_match[OF ws kw(2) seg(1) kw(3)] by blast
    then have "0 < segment_score K para" using kw(1,2) match_score_pos_iff by blast
    moreover obtain j where "j < length (split_to_paragraphs c)" "split_to_paragraphs c ! j = para"
      using para(1) by (metis in_set_conv_nth)
    ultimately show False using le by force
  qed
  then have "s2 = 0" "bs = None" using A by auto
  then show ?thesis using s K_def by simp
qed

lemma chosen_segment_is_paragraph:
  assumes "chosen_segment q d = Some seg"
  shows "fst (scan_paragraphs (keywords_from_query q 2) (content d)) = Some seg \<and>
         seg \<in> set (split_to_paragraphs (content d))"
proof -
  define K where "K = keywords_from_query q 2"
  obtain bp s1 where p: "scan_paragraphs K (content d) = (bp, s1)"
    by (cases "scan_paragraphs K (content d)")
  obtain bs s2 where s: "scan_sentences K (content d) s1 = (bs, s2)"
    by (cases "scan_sentences K (content d) s1")
  note A = scans_anatomy[OF p s]
  have c: "(if s2 = 0 then None else raw_snippet_of bp bs) = Some seg"
    using assms p s by (simp add: chosen_segment_def K_def[symmetric] Let_def)
  have "s1 \<noteq> 0"
  proof
    assume z: "s1 = 0"
    then have "scan_sentences K (content d) 0 = (None, 0)"
      using sentence_scan_idle[of q "content d" bp] p K_def by simp
    then have "s2 = 0" using s z by simp
    then show False using c by simp
  qed
  then have pos: "0 < s1" using A by simp
  then obtain x where x: "x \<in> set (split_to_paragraphs (content d))" "bp = Some x" "bs = None" "s2 = s1"
    using A by blast
  then have "seg = x" using c pos by (simp add: raw_snippet_of_def)
  then show ?thesis using x p K_def by simp
qed

section \<open>The citation lookup\<close>

lemma SECTION_REF_RE_Nil: "SECTION_REF_RE U [] = None"
  by (simp add: SECTION_REF_RE_def)

lemma extract_section_ref_first:
  "extract_section_ref U w = Some x \<Longrightarrow>
     \<exists>k n. SECTION_REF_RE U (drop k w) = Some n \<and> x = take n (drop k w) \<and>
           (\<forall>j<k. SECTION_REF_RE U (drop j w) = None)"
proof (induction w)
  case Nil
  then show ?case by simp
next
  case (Cons c cs)
  show ?case
  proof (cases "SECTION_REF_RE U (c # cs)")
    case (Some n)
    then have "x = take n (c # cs)" using Cons.prems by simp
    then have "SECTION_REF_RE U (drop 0 (c # cs)) = Some n \<and> x = take n (drop 0 (c # cs)) \<and>
           (\<forall>j<0. SECTION_REF_RE U (drop j (c # cs)) = None)" using Some by simp
    then show ?thesis by blast
  next
    case None
    then have "extract_section_ref U cs = Some x" using Cons.prems by simp
    then obtain k n where k: "SECTION_REF_RE U (drop k cs) = Some n" "x = take n (drop k cs)"
      "\<forall>j<k. SECTION_REF_RE U (drop j cs) = None" using Cons.IH by blast
    have "\<forall>j<Suc k. SECTION_REF_RE U (drop j (c # cs)) = None"
    proof (intro allI impI)
      fix j assume "j < Suc k"
      then show "SECTION_REF_RE U (drop j (c # cs)) = None"
        using None k(3) by (cases j) simp_all
    qed
    then have "SECTION_REF_RE U (drop (Suc k) (c # cs)) = Some n \<and> x = take n (drop (Suc k) (c # cs)) \<and>
           (\<forall>j<Suc k. SECTION_REF_RE U (drop j (c # cs)) = None)" using k(1,2) by simp
    then show ?thesis by blast
  qed
qed

lemma extract_section_ref_None:
  "extract_section_ref U w = None \<Longrightarrow> SECTION_REF_RE U (drop k w) = None"
proof (induction w arbitrary: k)
  case Nil
  then show ?case by (simp add: SECTION_REF_RE_Nil)
next
  case (Cons c cs)
  then show ?case by (cases k) (auto split: option.splits)
qed

lemma citation_window_parts:
  assumes "str_index c seg = Inr idx"
  shows "citation_window c idx seg =
           drop (idx - 400) (take idx c) @ seg @ take 400 (drop (idx + length seg) c)"
proof -
  have pre: "prefix seg (drop idx c)" and len: "idx + length seg \<le> length c"
    using str_index_sound[OF assms] by simp_all
  define a where "a = take idx c"
  define b where "b = drop (idx + length seg) c"
  have la: "length a = idx" using len by (simp add: a_def)
  have "drop idx c = seg @ drop (length seg) (drop idx c)"
    using pre by (metis append_take_drop_id append_eq_conv_conj prefixE)
  then have "drop idx c = seg @ b" by (simp add: b_def add.commute)
  then have c: "c = a @ seg @ b" by (metis a_def append_take_drop_id)
  have lo: "nat (max 0 (int idx - 400)) = idx - 400" by simp
  have d: "drop (idx - 400) c = drop (idx - 400) a @ seg @ b"
    using c la by simp
  have "take (idx + length seg + 400 - (idx - 400)) (drop (idx - 400) a @ seg @ b) =
        drop (idx - 400) a @ seg @ take 400 b"
    using la by simp
  then show ?thesis
    unfolding citation_window_def py_slice_def lo d a_def[symmetric] b_def[symmetric] .
qed

text \<open>
  C5. Whenever a candidate is returned, the chosen segment is a paragraph of the document
  (the scan of the sentences never selects anything), \<open>index\<close> finds it, and the window
  is the up to 400 characters before that position, the segment, and the up to 400
  characters after it. A match inside the segment is the reference. When the segment has
  no match the reference is the result of the search in the window: the leftmost match
  there, and empty only when the pattern matches nowhere in the window.
\<close>

theorem citation_window_lookup:
  assumes "best_snippet_for_query_in_doc U q d m = Some (t, r)"
  shows "\<exists>seg idx.
           chosen_segment q d = Some seg \<and> seg \<in> set (split_to_paragraphs (content d)) \<and>
           str_index (content d) seg = Inr idx \<and>
           citation_window (content d) idx seg =
             drop (idx - 400) (take idx (content d)) @ seg @
             take 400 (drop (idx + length seg) (content d)) \<and>
           (\<forall>x. extract_section_ref U seg = Some x \<longrightarrow> r = Some x) \<and>
           (extract_section_ref U seg = None \<longrightarrow>
              r = extract_section_ref U (citation_window (content d) idx seg) \<and>
              (\<forall>x. r = Some x \<longrightarrow>
                 (\<exists>k n. SECTION_REF_RE U (drop k (citation_window (content d) idx seg)) = Some n \<and>
                        x = take n (drop k (citation_window (content d) idx seg)) \<and>
                        (\<forall>j<k. SECTION_REF_RE U (drop j (citation_window (content d) idx seg)) = None))) \<and>
              (r = None \<longrightarrow>
                 (\<forall>k. SECTION_REF_RE U (drop k (citation_window (content d) idx seg)) = None)))"
proof -
  obtain seg bp where raw: "chosen_segment q d = Some seg"
    "bp = fst (scan_paragraphs (keywords_from_query q 2) (content d))"
    "r = lookup_section_ref U (content d) bp seg"
    using best_snippet_Some_ref[OF assms] by blast
  have par: "bp = Some seg" "seg \<in> set (split_to_paragraphs (content d))"
    using chosen_segment_is_paragraph[OF raw(1)] raw(2) by simp_all
  have "sublist seg (content d)" using split_to_paragraphs_unit[OF par(2)] by simp
  then obtain idx where idx: "str_index (content d) seg = Inr idx"
    using str_index_sublist by blast
  define W where "W = citation_window (content d) idx seg"
  have w: "W = drop (idx - 400) (take idx (content d)) @ seg @
             take 400 (drop (idx + length seg) (content d))"
    unfolding W_def by (rule citation_window_parts[OF idx])
  have inl: "\<forall>x. extract_section_ref U seg = Some x \<longrightarrow> r = Some x"
    using raw(3) by (simp add: lookup_section_ref_def Let_def)
  have win: "extract_section_ref U seg = None \<longrightarrow>
              r = extract_section_ref U W \<and>
              (\<forall>x. r = Some x \<longrightarrow>
                 (\<exists>k n. SECTION_REF_RE U (drop k W) = Some n \<and> x = take n (drop k W) \<and>
                        (\<forall>j<k. SECTION_REF_RE U (drop j W) = None))) \<and>
              (r = None \<longrightarrow> (\<forall>k. SECTION_REF_RE U (drop k W) = None))"
  proof
    assume n: "extract_section_ref U seg = None"
    have r: "r = extract_section_ref U W"
      using raw(3) par(1) n idx by (simp add: lookup_section_ref_def Let_def W_def)
    have f: "\<forall>x. r = Some x \<longrightarrow>
                 (\<exists>k n. SECTION_REF_RE U (drop k W) = Some n \<and> x = take n (drop k W) \<and>
                        (\<forall>j<k. SECTION_REF_RE U (drop j W) = None))"
      using r extract_section_ref_first[of U W] by simp
    have g: "r = None \<longrightarrow> (\<forall>k. SECTION_REF_RE U (drop k W) = None)"
      using r extract_section_ref_None[of U W] by simp
    show "r = extract_section_ref U W \<and>
              (\<forall>x. r = Some x \<longrightarrow>
                 (\<exists>k n. SECTION_REF_RE U (drop k W) = Some n \<and> x = take n (drop k W) \<and>
                        (\<forall>j<k. SECTION_REF_RE U (drop j W) = None))) \<and>
              (r = None \<longrightarrow> (\<forall>k. SECTION_REF_RE U (drop k W) = None))"
      using r f g by (intro conjI)
  qed
  have "chosen_segment q d = Some seg \<and> seg \<in> set (split_to_paragraphs (content d)) \<and>
           str_index (content d) seg = Inr idx \<and>
           W = drop (idx - 400) (take idx (content d)) @ seg @
             take 400 (drop (idx + length seg) (content d)) \<and>
           (\<forall>x. extract_section_ref U seg = Some x \<longrightarrow> r = Some x) \<and>
           (extract_section_ref U seg = None \<longrightarrow>
              r = extract_section_ref U W \<and>
              (\<forall>x. r = Some x \<longrightarrow>
                 (\<exists>k n. SECTION_REF_RE U (drop k W) = Some n \<and> x = take n (drop k W) \<and>
                        (\<forall>j<k. SECTION_REF_RE U (drop j W) = None))) \<and>
              (r = None \<longrightarrow> (\<forall>k. SECTION_REF_RE U (drop k W) = None)))"
    using raw(1) par(2) idx w inl win by (intro conjI)
  then show ?thesis unfolding W_def
    by - (rule exI[of _ seg], rule exI[of _ idx], assumption)
qed

theorem citation_window_lookup_witness:
  "best_snippet_for_query_in_doc basic_tables
     [1490, 1497, 1500, 32, 1502, 1497, 1504, 1497, 1502, 1500, 1497]
     \<lparr>doc_id = [68, 49],
      content = [1505, 1506, 1497, 1507, 32, 51, 40, 1488, 41, 32, 1511, 1493, 1489, 1506, 46, 10, 1490, 1497, 1500, 32, 1502, 1497, 1504, 1497, 1502, 1500, 1497, 32, 49, 56]\<rparr> 700 =
     Some ([1490, 1497, 1500, 32, 1502, 1497, 1504, 1497, 1502, 1500, 1497, 32, 49, 56],
           Some [1505, 1506, 1497, 1507, 32, 51, 40, 1488, 41]) \<and>
   chosen_segment [1490, 1497, 1500, 32, 1502, 1497, 1504, 1497, 1502, 1500, 1497]
     \<lparr>doc_id = [68, 49],
      content = [1505, 1506, 1497, 1507, 32, 51, 40, 1488, 41, 32, 1511, 1493, 1489, 1506, 46, 10, 1490, 1497, 1500, 32, 1502, 1497, 1504, 1497, 1502, 1500, 1497, 32, 49, 56]\<rparr> =
     Some [1490, 1497, 1500, 32, 1502, 1497, 1504, 1497, 1502, 1500, 1497, 32, 49, 56] \<and>
   extract_section_ref basic_tables [1490, 1497, 1500, 32, 1502, 1497, 1504, 1497, 1502, 1500, 1497, 32, 49, 56] = None \<and>
   str_index [1505, 1506, 1497, 1507, 32, 51, 40, 1488, 41, 32, 1511, 1493, 1489, 1506, 46, 10, 1490, 1497, 1500, 32, 1502, 1497, 1504, 1497, 1502, 1500, 1497, 32, 49, 56]
     [1490, 1497, 1500, 32, 1502, 1497, 1504, 1497, 1502, 1500, 1497, 32, 49, 56] = Inr 16 \<and>
   citation_window [1505, 1506, 1497, 1507, 32, 51, 40, 1488, 41, 32, 1511, 1493, 1489, 1506, 46, 10, 1490, 1497, 1500, 32, 1502, 1497, 1504, 1497, 1502, 1500, 1497, 32, 49, 56] 16
     [1490, 1497, 1500, 32, 1502, 1497, 1504, 1497, 1502, 1500, 1497, 32, 49, 56] =
     [1505, 1506, 1497, 1507, 32, 51, 40, 1488, 41, 32, 1511, 1493, 1489, 1506, 46, 10, 1490, 1497, 1500, 32, 1502, 1497, 1504, 1497, 1502, 1500, 1497, 32, 49, 56]"
proof -
  define d where "d = \<lparr>doc_id = [68, 49],
      content = [1505, 1506, 1497, 1507, 32, 51, 40, 1488, 41, 32, 1511, 1493, 1489, 1506, 46, 10, 1490, 1497, 1500, 32, 1502, 1497, 1504, 1497, 1502, 1500, 1497, 32, 49, 56]\<rparr>"
  have b: "best_snippet_for_query_in_doc basic_tables [1490, 1497, 1500, 32, 1502, 1497, 1504, 1497, 1502, 1500, 1497] d 700 =
     Some ([1490, 1497, 1500, 32, 1502, 1497, 1504, 1497, 1502, 1500, 1497, 32, 49, 56],
           Some [1505, 1506, 1497, 1507, 32, 51, 40, 1488, 41])"
    by (simp add: d_def retriever_eval)
  have e: "extract_section_ref basic_tables [1490, 1497, 1500, 32, 1502, 1497, 1504, 1497, 1502, 1500, 1497, 32, 49, 56] = None"
    by (simp add: retriever_eval)
  have i: "str_index [1505, 1506, 1497, 1507, 32, 51, 40, 1488, 41, 32, 1511, 1493, 1489, 1506, 46, 10, 1490, 1497, 1500, 32, 1502, 1497, 1504, 1497, 1502, 1500, 1497, 32, 49, 56]
     [1490, 1497, 1500, 32, 1502, 1497, 1504, 1497, 1502, 1500, 1497, 32, 49, 56] = Inr 16"
    by simp
  obtain seg idx where s: "chosen_segment [1490, 1497, 1500, 32, 1502, 1497, 1504, 1497, 1502, 1500, 1497] d = Some seg"
    "seg \<in> set (split_to_paragraphs (content d))"
    using citation_window_lookup[OF b] by blast
  have c: "chosen_segment [1490, 1497, 1500, 32, 1502, 1497, 1504, 1497, 1502, 1500, 1497] d =
     Some [1490, 1497, 1500, 32, 1502, 1497, 1504, 1497, 1502, 1500, 1497, 32, 49, 56]"
    by (simp add: d_def chosen_segment_def retriever_eval)
  have w: "citation_window [1505, 1506, 1497, 1507, 32, 51, 40, 1488, 41, 32, 1511, 1493, 1489, 1506, 46, 10, 1490, 1497, 1500, 32, 1502, 1497, 1504, 1497, 1502, 1500, 1497, 32, 49, 56] 16
     [1490, 1497, 1500, 32, 1502, 1497, 1504, 1497, 1502, 1500, 1497, 32, 49, 56] =
     [1505, 1506, 1497, 1507, 32, 51, 40, 1488, 41, 32, 1511, 1493, 1489, 1506, 46, 10, 1490, 1497, 1500, 32, 1502, 1497, 1504, 1497, 1502, 1500, 1497, 32, 49, 56]"
    by (simp add: citation_window_def py_slice_def)
  show ?thesis using b c e i w s unfolding d_def by simp
qed

section \<open>Truncation of long snippets\<close>

lemma crlf_run_no_lf: "10 \<notin> set xs \<Longrightarrow> crlf_run xs = 0"
  by (cases xs rule: crlf_run.cases) auto

lemma takeWhile_no_lf: "10 \<notin> set xs \<Longrightarrow> takeWhile (\<lambda>c. c = 10) xs = []"
  by (cases xs) auto

lemma PARAGRAPH_SEP_RE_no_lf: "10 \<notin> set xs \<Longrightarrow> PARAGRAPH_SEP_RE prev xs = 0"
  by (simp add: PARAGRAPH_SEP_RE_def crlf_run_no_lf takeWhile_no_lf)

lemma re_split_no_lf:
  "m = PARAGRAPH_SEP_RE \<Longrightarrow> 10 \<notin> set xs \<Longrightarrow> re_split m prev acc xs = [rev acc @ xs]"
proof (induction m prev acc xs rule: re_split.induct)
  case (1 m prev acc)
  show ?case by simp
next
  case (2 m prev acc c cs)
  have z: "m prev (c # cs) = 0"
    unfolding "2.prems"(1) using "2.prems"(2) by (rule PARAGRAPH_SEP_RE_no_lf)
  have n: "10 \<notin> set cs" using "2.prems"(2) by simp
  have "re_split m prev acc (c # cs) = re_split m (Some c) (c # acc) cs"
    by (simp add: z)
  also have "\<dots> = [rev (c # acc) @ cs]" using "2.IH"(1)[OF refl z "2.prems"(1) n] .
  finally show ?case by simp
qed

lemma splitlines_from_plain:
  "\<forall>c\<in>set xs. \<not> is_linebreak c \<Longrightarrow> rev acc @ xs \<noteq> [] \<Longrightarrow>
   splitlines_from acc xs = [rev acc @ xs]"
proof (induction acc xs rule: splitlines_from.induct)
  case (1 acc)
  then show ?case by simp
next
  case (2 acc c)
  then show ?case by simp
next
  case (3 acc c d cs)
  have nb: "\<not> is_linebreak c" using "3.prems"(1) by simp
  have n13: "\<not> (c = 13 \<and> d = 10)"
  proof
    assume "c = 13 \<and> d = 10"
    then have "is_linebreak c" by (simp add: is_linebreak_def)
    then show False using nb by simp
  qed
  have r: "\<forall>x\<in>set (d # cs). \<not> is_linebreak x" using "3.prems"(1) by simp
  have ne: "rev (c # acc) @ d # cs \<noteq> []" by simp
  have ih: "splitlines_from (c # acc) (d # cs) = [rev (c # acc) @ d # cs]"
    using "3.IH"(3)[OF n13 nb r ne] .
  have step: "splitlines_from acc (c # d # cs) = splitlines_from (c # acc) (d # cs)"
    using nb n13 by (simp only: splitlines_from.simps if_False)
  show ?case unfolding step ih by simp
qed

lemma split_to_paragraphs_single:
  assumes "\<forall>c\<in>set Y. \<not> is_linebreak c" "strip Y = Y" "Y \<noteq> []"
  shows "split_to_paragraphs Y = [Y]"
proof -
  have "is_linebreak 10" by (simp add: is_linebreak_def)
  then have "10 \<notin> set Y" using assms(1) by blast
  then have r: "re_split PARAGRAPH_SEP_RE None [] Y = [Y]" using re_split_no_lf[OF refl] by simp
  have l: "splitlines Y = [Y]" using splitlines_from_plain[of Y "[]"] assms(1,3) by (simp add: splitlines_def)
  show ?thesis using assms(2,3) by (simp add: split_to_paragraphs_def r l)
qed

lemma extract_section_ref_no_literal: "1505 \<notin> set w \<Longrightarrow> extract_section_ref U w = None"
proof (induction w)
  case Nil
  then show ?case by simp
next
  case (Cons c cs)
  then have "c \<noteq> 1505" by auto
  then have "SECTION_REF_RE U (c # cs) = None" by (simp add: SECTION_REF_RE_def)
  then show ?case using Cons by simp
qed

lemma citation_window_subset: "set (citation_window c idx p) \<subseteq> set c"
proof -
  have "set (take n (drop k c)) \<subseteq> set c" for n k
    using set_take_subset[of n "drop k c"] set_drop_subset[of k c] by blast
  then show ?thesis unfolding citation_window_def py_slice_def .
qed

text \<open>
  A document that is one paragraph, holds the query \<open>aa\<close> and has no citation word: the
  candidate is the whole document, cut to 700 characters.
\<close>

lemma single_paragraph_document:
  assumes Y: "\<forall>c\<in>set Y. \<not> is_linebreak c" "strip Y = Y" "Y \<noteq> []"
    and kw: "sublist [97, 97] (strip_niqqud Y)" and lit: "1505 \<notin> set Y"
  shows "best_snippet_for_query_in_doc U [97, 97] \<lparr>doc_id = i, content = Y\<rparr> m =
           Some (truncate_snippet m Y, None) \<and>
         chosen_segment [97, 97] \<lparr>doc_id = i, content = Y\<rparr> = Some Y"
proof -
  define d where "d = \<lparr>doc_id = i, content = Y\<rparr>"
  have k: "keywords_from_query [97, 97] 2 = [[97, 97]]"
    by (simp add: string_eval keywords_from_query_def HE_STOPWORDS_def dedup_step_def)
  have ws: "\<forall>c\<in>set [97, 97 :: nat]. \<not> isspace c" by (simp add: isspace_def)
  have "sublist [97, 97] (normalize_hebrew Y)"
    using sublist_normalize_hebrew[OF ws] kw by simp
  then have sc: "segment_score [[97, 97]] Y = 1" by (simp add: match_score_count)
  have p: "scan_paragraphs [[97, 97]] (content d) = (Some Y, 1)"
    by (simp add: d_def scan_paragraphs_def split_to_paragraphs_single[OF Y] scan_step_def sc)
  have s: "scan_sentences [[97, 97]] (content d) 1 = (None, 1)"
    by (simp add: scan_sentences_def)
  have c: "chosen_segment [97, 97] d = Some Y"
    using p s by (simp add: chosen_segment_def k raw_snippet_of_def)
  have e: "extract_section_ref U Y = None" using lit by (rule extract_section_ref_no_literal)
  have "1505 \<notin> set (citation_window Y idx Y)" for idx
    using lit citation_window_subset by blast
  then have w: "extract_section_ref U (citation_window Y idx Y) = None" for idx
    by (rule extract_section_ref_no_literal)
  have l: "lookup_section_ref U Y (Some Y) Y = None"
    using e w by (simp add: lookup_section_ref_def split: sum.splits)
  have "best_snippet_for_query_in_doc U [97, 97] d m = Some (truncate_snippet m Y, None)"
    using p s Y(3) l by (simp add: best_snippet_for_query_in_doc_def k raw_snippet_of_def d_def)
  then show ?thesis using c unfolding d_def by simp
qed

lemma single_document_retrieve:
  assumes "best_snippet_for_query_in_doc U q d 700 = Some (t, r)"
  shows "retrieved_sections (retrieve U \<lparr>criteria_queries = [q], criteria_documents = [d]\<rparr> 1) =
           [\<lparr>source_id = doc_id d, text_str = t, section_ref = r\<rparr>]"
  using assms
  by (simp add: retrieve_concat batch_of_eq matching_docs_def py_prefix_def section_of_def)

lemma a_run_document:
  assumes n: "2 \<le> n" and t: "\<forall>c\<in>set t. c = 32 \<or> c = 98" "t = [] \<or> last t = 98"
  shows "best_snippet_for_query_in_doc U [97, 97] \<lparr>doc_id = i, content = replicate n 97 @ t\<rparr> m =
           Some (truncate_snippet m (replicate n 97 @ t), None) \<and>
         chosen_segment [97, 97] \<lparr>doc_id = i, content = replicate n 97 @ t\<rparr> =
           Some (replicate n 97 @ t) \<and>
         strip (replicate n 97 @ t) = replicate n 97 @ t"
proof -
  define Y where "Y = replicate n 97 @ t"
  have el: "\<forall>c\<in>set Y. c = 97 \<or> c = 32 \<or> c = 98" using t(1) by (auto simp: Y_def)
  have ne: "Y \<noteq> []" using n by (auto simp: Y_def)
  have "hd Y = 97" using n by (cases n) (simp_all add: Y_def)
  then have h: "\<not> isspace (hd Y)" by (simp add: isspace_def)
  have "last Y = 97 \<or> last Y = 98" using t(2) n by (cases "t = []") (auto simp: Y_def)
  then have l: "\<not> isspace (last Y)" by (auto simp: isspace_def)
  have st: "strip Y = Y" using ne h l by (simp add: strip_def lstrip_id rstrip_id)
  have lb: "\<forall>c\<in>set Y. \<not> is_linebreak c" using el by (auto simp: is_linebreak_def)
  have nq: "strip_niqqud Y = Y" using el by (auto simp: filter_id_conv is_niqqud_def)
  obtain k where k: "n = Suc (Suc k)" using n by (metis Suc_le_D numeral_2_eq_2 Suc_le_mono)
  have "Y = [97, 97] @ (replicate k 97 @ t)" by (simp add: Y_def k)
  then have sub: "sublist [97, 97] (strip_niqqud Y)" unfolding nq by (metis sublist_append_rightI)
  have lit: "1505 \<notin> set Y" using el by auto
  show ?thesis using single_paragraph_document[OF lb st ne sub lit, of U i m] st
    unfolding Y_def by simp
qed

text \<open>
  C3, as the code has it. Every record of the output is the sentinel or comes from the
  segment chosen for one of the queries in one of the documents. When that segment has
  at most 700 characters it is the text. When it has more, the text is the first 700
  characters with the white space at their end removed, followed by the ellipsis: it
  ends with the ellipsis, has between 2 and 701 characters, and has exactly 701 when the
  700th character of the segment is not white space.
\<close>

theorem emitted_text_truncation:
  assumes "r \<in> set (retrieved_sections (retrieve U inp m))"
  shows "r = sentinel \<or>
         (\<exists>q\<in>set (criteria_queries inp). \<exists>d\<in>set (criteria_documents inp). \<exists>seg.
            chosen_segment q d = Some seg \<and> source_id r = doc_id d \<and>
            (length seg \<le> 700 \<longrightarrow> text_str r = seg) \<and>
            (700 < length seg \<longrightarrow>
               text_str r = rstrip (take 700 seg) @ [8230] \<and>
               last (text_str r) = 8230 \<and>
               2 \<le> length (text_str r) \<and> length (text_str r) \<le> 701 \<and>
               (length (text_str r) = 701 \<longleftrightarrow> \<not> isspace (seg ! 699))))"
proof (cases "r = sentinel")
  case True
  then show ?thesis by simp
next
  case False
  then obtain q d t ref where o: "q \<in> set (criteria_queries inp)" "d \<in> set (criteria_documents inp)"
    "best_snippet_for_query_in_doc U q d 700 = Some (t, ref)"
    "r = \<lparr>source_id = doc_id d, text_str = t, section_ref = ref\<rparr>"
    using retrieved_section_origin[OF assms] by blast
  obtain seg where seg: "chosen_segment q d = Some seg" "strip seg = seg" "t = truncate_snippet 700 seg"
    using best_snippet_Some_chosen[OF o(3)] by blast
  have t: "text_str r = truncate_snippet 700 seg" using o(4) seg(3) by simp
  have short: "length seg \<le> 700 \<longrightarrow> text_str r = seg"
    using truncate_snippet_short[OF seg(2), of 700] t by simp
  have long: "700 < length seg \<longrightarrow>
               text_str r = rstrip (take 700 seg) @ [8230] \<and>
               last (text_str r) = 8230 \<and>
               2 \<le> length (text_str r) \<and> length (text_str r) \<le> 701 \<and>
               (length (text_str r) = 701 \<longleftrightarrow> \<not> isspace (seg ! 699))"
  proof
    assume l: "700 < length seg"
    from truncate_snippet_700[OF seg(2) l]
    show "text_str r = rstrip (take 700 seg) @ [8230] \<and>
               last (text_str r) = 8230 \<and>
               2 \<le> length (text_str r) \<and> length (text_str r) \<le> 701 \<and>
               (length (text_str r) = 701 \<longleftrightarrow> \<not> isspace (seg ! 699))"
      unfolding t .
  qed
  have "source_id r = doc_id d" using o(4) by simp
  then show ?thesis using o(1,2) seg(1) short long by blast
qed

theorem emitted_text_truncation_witness:
  "retrieved_sections
     (retrieve basic_tables
        \<lparr>criteria_queries = [[97, 97]],
         criteria_documents = [\<lparr>doc_id = [68], content = replicate 701 97\<rparr>]\<rparr> 1) =
     [\<lparr>source_id = [68], text_str = replicate 700 97 @ [8230], section_ref = None\<rparr>] \<and>
   chosen_segment [97, 97] \<lparr>doc_id = [68], content = replicate 701 97\<rparr> = Some (replicate 701 97) \<and>
   700 < length (replicate 701 (97 :: nat)) \<and>
   \<not> isspace (replicate 701 97 ! 699) \<and>
   last (replicate 700 97 @ [8230 :: nat]) = 8230 \<and>
   length (replicate 700 97 @ [8230 :: nat]) = 701 \<and>
   \<lparr>source_id = [68], text_str = replicate 700 97 @ [8230], section_ref = None\<rparr> \<noteq> sentinel"
proof -
  define X :: ustr where "X = replicate 701 97"
  define R where "R = \<lparr>source_id = [68], text_str = replicate 700 97 @ [8230], section_ref = None\<rparr>"
  define inp where "inp = \<lparr>criteria_queries = [[97, 97]], criteria_documents = [\<lparr>doc_id = [68], content = X\<rparr>]\<rparr>"
  have d: "best_snippet_for_query_in_doc basic_tables [97, 97] \<lparr>doc_id = [68], content = X\<rparr> 700 =
           Some (truncate_snippet 700 X, None)"
    and c: "chosen_segment [97, 97] \<lparr>doc_id = [68], content = X\<rparr> = Some X"
    and st: "strip X = X"
    using a_run_document[of 701 "[]" basic_tables "[68]" 700] by (simp_all add: X_def)
  have len: "700 < length X" by (simp add: X_def)
  have tk: "take 700 X = replicate 700 97" by (simp add: X_def)
  have rs: "rstrip (replicate 700 97) = replicate 700 97"
    by (simp add: rstrip_def isspace_def)
  have "truncate_snippet 700 X = rstrip (take 700 X) @ [8230]"
    using truncate_snippet_700[OF st len] by (rule conjunct1)
  then have tr: "truncate_snippet 700 X = replicate 700 97 @ [8230]" by (simp add: tk rs)
  have r: "retrieved_sections (retrieve basic_tables inp 1) = [R]"
    using single_document_retrieve[OF d] tr by (simp add: inp_def R_def)
  then have mem: "R \<in> set (retrieved_sections (retrieve basic_tables inp 1))" by simp
  have ns: "R \<noteq> sentinel" by (simp add: R_def sentinel_def)
  note T = emitted_text_truncation[OF mem]
  have sp: "\<not> isspace (X ! 699)" by (simp add: X_def isspace_def)
  show ?thesis using r c len sp ns T unfolding X_def R_def inp_def by simp
qed

text \<open>
  C3, as stated, fails: a document of 699 letters \<open>a\<close>, a space and a letter \<open>b\<close>, and the
  query \<open>aa\<close>. The chosen segment is the whole document, 701 characters long; the space is
  the 700th character and is removed before the ellipsis is added, so the emitted text has
  700 characters, not 701.
\<close>

theorem emitted_text_truncation_counterexample:
  "retrieved_sections
     (retrieve basic_tables
        \<lparr>criteria_queries = [[97, 97]],
         criteria_documents = [\<lparr>doc_id = [68], content = replicate 699 97 @ [32, 98]\<rparr>]\<rparr> 1) =
     [\<lparr>source_id = [68], text_str = replicate 699 97 @ [8230], section_ref = None\<rparr>] \<and>
   chosen_segment [97, 97] \<lparr>doc_id = [68], content = replicate 699 97 @ [32, 98]\<rparr> =
     Some (replicate 699 97 @ [32, 98]) \<and>
   700 < length (replicate 699 97 @ [32, 98 :: nat]) \<and>
   length (replicate 699 97 @ [8230 :: nat]) \<noteq> 700 + 1"
proof -
  define X :: ustr where "X = replicate 699 97 @ [32, 98]"
  have d: "best_snippet_for_query_in_doc basic_tables [97, 97] \<lparr>doc_id = [68], content = X\<rparr> 700 =
           Some (truncate_snippet 700 X, None)"
    and c: "chosen_segment [97, 97] \<lparr>doc_id = [68], content = X\<rparr> = Some X"
    and st: "strip X = X"
    using a_run_document[of 699 "[32, 98]" basic_tables "[68]" 700] by (simp_all add: X_def)
  have len: "700 < length X" by (simp add: X_def)
  have tk: "take 700 X = replicate 699 97 @ [32]" by (simp add: X_def)
  have rs: "rstrip (replicate 699 97 @ [32]) = replicate 699 97"
    by (simp add: rstrip_def isspace_def)
  have "truncate_snippet 700 X = rstrip (take 700 X) @ [8230]"
    using truncate_snippet_700[OF st len] by (rule conjunct1)
  then have tr: "truncate_snippet 700 X = replicate 699 97 @ [8230]" by (simp add: tk rs)
  have r: "retrieved_sections
     (retrieve basic_tables
        \<lparr>criteria_queries = [[97, 97]], criteria_documents = [\<lparr>doc_id = [68], content = X\<rparr>]\<rparr> 1) =
     [\<lparr>source_id = [68], text_str = replicate 699 97 @ [8230], section_ref = None\<rparr>]"
    using single_document_retrieve[OF d] tr by simp
  show ?thesis using r c len unfolding X_def by simp
qed

end
